theory Spec2Isabelle
  imports Main "HOL-Library.Monad_Syntax" "HOL-Library.AList" "HOL-Library.Multiset"
begin

section \<open>Characters and the std::string primitives used by the codec\<close>

abbreviation squote :: char where "squote \<equiv> CHR 0x27"
abbreviation dquote :: char where "dquote \<equiv> CHR 0x22"
abbreviation backslash :: char where "backslash \<equiv> CHR 0x5C"
abbreviation tab :: char where "tab \<equiv> CHR 0x09"

text \<open>
  The character classes of \<open><cctype>\<close> in the C locale, on the value of the byte
  (the source casts to \<open>unsigned char\<close> first).
\<close>

definition isdigit :: "char \<Rightarrow> bool" where
  "isdigit c = (let n = (of_char c :: nat) in 48 \<le> n \<and> n \<le> 57)"

definition isalpha :: "char \<Rightarrow> bool" where
  "isalpha c = (let n = (of_char c :: nat) in (65 \<le> n \<and> n \<le> 90) \<or> (97 \<le> n \<and> n \<le> 122))"

definition isalnum :: "char \<Rightarrow> bool" where
  "isalnum c = (isalpha c \<or> isdigit c)"

text \<open>
  Positions are \<open>size_t\<close> values; \<open>std::string::npos\<close> is \<open>None\<close>.
  \<open>first_index P s\<close> is the least index whose character satisfies \<open>P\<close>.
\<close>

primrec first_index :: "('a \<Rightarrow> bool) \<Rightarrow> 'a list \<Rightarrow> nat option" where
  "first_index P [] = None"
| "first_index P (x # xs) = (if P x then Some 0 else map_option Suc (first_index P xs))"

definition find_first_not_of :: "string \<Rightarrow> string \<Rightarrow> nat option" where
  "find_first_not_of s cs = first_index (\<lambda>c. c \<notin> set cs) s"

definition find_last_not_of :: "string \<Rightarrow> string \<Rightarrow> nat option" where
  "find_last_not_of s cs =
     map_option (\<lambda>i. length s - 1 - i) (first_index (\<lambda>c. c \<notin> set cs) (rev s))"

text \<open>\<open>s.find(c, pos)\<close>: the first occurrence of \<open>c\<close> at an index \<open>\<ge> pos\<close>.\<close>

definition find_char :: "string \<Rightarrow> char \<Rightarrow> nat \<Rightarrow> nat option" where
  "find_char s c pos = map_option (\<lambda>i. pos + i) (first_index (\<lambda>x. x = c) (drop pos s))"

text \<open>
  \<open>s.substr(pos, n)\<close> throws \<open>std::out_of_range\<close> when \<open>pos > s.size()\<close>
  (the value \<open>None\<close>) and otherwise returns at most \<open>n\<close> characters from \<open>pos\<close>.
  \<open>substr_from s pos\<close> is \<open>s.substr(pos)\<close>, whose count defaults to \<open>npos\<close>.
\<close>

definition substr :: "string \<Rightarrow> nat \<Rightarrow> nat \<Rightarrow> string option" where
  "substr s pos n = (if pos > length s then None else Some (take n (drop pos s)))"

definition substr_from :: "string \<Rightarrow> nat \<Rightarrow> string option" where
  "substr_from s pos = (if pos > length s then None else Some (drop pos s))"

section \<open>The alias record and the shell enumeration\<close>

text \<open>
  \<open>struct Alias\<close>. Its remaining fields (\<open>description\<close>, \<open>enabled\<close>,
  \<open>created_date\<close>, \<open>last_used\<close>) are neither read by \<open>formatAlias\<close> nor
  written by \<open>parseAliasLine\<close>, and \<open>operator==\<close> compares \<open>name\<close> and
  \<open>command\<close> only; they are left out here.
\<close>

record Alias =
  name :: string
  command :: string

datatype Shell = BASH | ZSH | FISH | UNKNOWN

section \<open>AliasManager\<close>

definition validateAliasName :: "string \<Rightarrow> bool" where
  "validateAliasName nm =
     (if nm = [] \<or> length nm > 255 then False
      else if \<not> isalnum (nm ! 0) \<and> nm ! 0 \<noteq> CHR ''_'' then False
      else list_all (\<lambda>c. isalnum c \<or> c = CHR ''_'' \<or> c = CHR ''-'') (drop 1 nm))"

definition validateCommand :: "string \<Rightarrow> bool" where
  "validateCommand cmd =
     (if cmd = [] then False
      else if length cmd > 2048 then False
      else True)"

definition needs_escape :: "char \<Rightarrow> bool" where
  "needs_escape c =
     (c = squote \<or> c = dquote \<or> c = backslash \<or> c = CHR ''$'' \<or>
      c = CHR ''`'' \<or> c = CHR ''!'' \<or> c = CHR ''*'' \<or> c = CHR ''?'')"

text \<open>The loop of \<open>escapeCommand\<close>, with the string built so far as accumulator.\<close>

fun escape_loop :: "string \<Rightarrow> string \<Rightarrow> string" where
  "escape_loop [] escaped = escaped"
| "escape_loop (c # cs) escaped =
     escape_loop cs ((if needs_escape c then escaped @ [backslash] else escaped) @ [c])"

definition escapeCommand :: "string \<Rightarrow> string" where
  "escapeCommand cmd = escape_loop cmd []"

text \<open>The loop of \<open>unescapeString\<close>: the state is \<open>(unescaped, prevBackslash)\<close>.\<close>

fun unescape_loop :: "string \<Rightarrow> string \<Rightarrow> bool \<Rightarrow> string \<times> bool" where
  "unescape_loop [] unescaped prevBackslash = (unescaped, prevBackslash)"
| "unescape_loop (c # cs) unescaped prevBackslash =
     (if prevBackslash then unescape_loop cs (unescaped @ [c]) False
      else if c = backslash then unescape_loop cs unescaped True
      else unescape_loop cs (unescaped @ [c]) False)"

definition unescapeString :: "string \<Rightarrow> string" where
  "unescapeString str =
     (case unescape_loop str [] False of
        (unescaped, prevBackslash) \<Rightarrow>
          if prevBackslash then unescaped @ [backslash] else unescaped)"

definition formatAlias :: "Shell \<Rightarrow> Alias \<Rightarrow> string" where
  "formatAlias currentShell alias =
     (if \<not> validateAliasName (name alias) \<or> \<not> validateCommand (command alias) then []
      else case currentShell of
        BASH \<Rightarrow>
          (if squote \<in> set (command alias)
           then ''alias '' @ name alias @ [CHR ''='', dquote] @ escapeCommand (command alias) @ [dquote]
           else ''alias '' @ name alias @ [CHR ''='', squote] @ escapeCommand (command alias) @ [squote])
      | ZSH \<Rightarrow>
          (if squote \<in> set (command alias)
           then ''alias '' @ name alias @ [CHR ''='', dquote] @ escapeCommand (command alias) @ [dquote]
           else ''alias '' @ name alias @ [CHR ''='', squote] @ escapeCommand (command alias) @ [squote])
      | FISH \<Rightarrow>
          ''alias '' @ name alias @ [CHR '' '', squote] @ escapeCommand (command alias) @ [squote]
      | UNKNOWN \<Rightarrow>
          ''alias '' @ name alias @ [CHR ''='', squote] @ escapeCommand (command alias) @ [squote])"

text \<open>
  \<open>parseAliasLine\<close>, in three pieces that follow the source from top to bottom.
  \<open>None\<close> stands for an uncaught \<open>std::out_of_range\<close> from \<open>substr\<close>; the
  default-constructed \<open>Alias\<close> (both strings empty) is what the source returns for a
  line it does not accept.

  Two \<open>size_t\<close> subtractions involve \<open>npos\<close>. \<open>nameEnd - nameStart + 1\<close> with
  \<open>nameEnd = npos\<close> wraps to \<open>(2^64 - nameStart) mod 2^64\<close>. \<open>commentPos - cmdStart\<close>
  with \<open>commentPos = npos\<close> is \<open>npos - cmdStart\<close>, which is at least the number of
  characters after \<open>cmdStart\<close> in any \<open>std::string\<close>, so \<open>substr\<close> returns the whole rest.
\<close>

text \<open>Lines 150--173: the command text found at \<open>cmdStart\<close>, before unescaping.\<close>

definition extract_command :: "string \<Rightarrow> nat \<Rightarrow> string option" where
  "extract_command commandPart cmdStart =
     (if commandPart ! cmdStart = squote \<or> commandPart ! cmdStart = dquote
      then (let quote = commandPart ! cmdStart in
            case find_char commandPart quote (cmdStart + 1) of
              Some endQuote \<Rightarrow> substr commandPart (cmdStart + 1) (endQuote - cmdStart - 1)
            | None \<Rightarrow> substr_from commandPart (cmdStart + 1))
      else do {
        c \<leftarrow> (case find_char commandPart (CHR ''#'') cmdStart of
                Some commentPos \<Rightarrow> substr commandPart cmdStart (commentPos - cmdStart)
              | None \<Rightarrow> substr_from commandPart cmdStart);
        Some (case find_last_not_of c [CHR '' '', tab] of
                Some e \<Rightarrow> take (e + 1) c
              | None \<Rightarrow> c)
      })"

text \<open>Lines 137--178: what happens once \<open>eqPos\<close> and \<open>namePart\<close> are known.\<close>

definition parse_after_eq :: "string \<Rightarrow> nat \<Rightarrow> string \<Rightarrow> Alias option" where
  "parse_after_eq line eqPos namePart =
     (let result = \<lparr>name = [], command = []\<rparr> in
      case find_first_not_of namePart [CHR '' '', tab] of
        None \<Rightarrow> Some result
      | Some nameStart \<Rightarrow> do {
          nm \<leftarrow> (case find_last_not_of namePart [CHR '' '', tab] of
                   Some nameEnd \<Rightarrow> substr namePart nameStart (nameEnd - nameStart + 1)
                 | None \<Rightarrow> substr namePart nameStart ((2 ^ 64 - nameStart) mod 2 ^ 64));
          let result = result\<lparr>name := nm\<rparr>;
          commandPart \<leftarrow> substr_from line (eqPos + 1);
          case find_first_not_of commandPart [CHR '' '', tab] of
            None \<Rightarrow> Some result
          | Some cmdStart \<Rightarrow> do {
              cmd \<leftarrow> extract_command commandPart cmdStart;
              Some (result\<lparr>command := unescapeString cmd\<rparr>)
            }
        })"

definition parseAliasLine :: "string \<Rightarrow> Alias option" where
  "parseAliasLine line =
     (let result = \<lparr>name = [], command = []\<rparr> in
      case find_first_not_of line [CHR '' '', tab] of
        None \<Rightarrow> Some result
      | Some start \<Rightarrow> do {
          kw \<leftarrow> substr line start 5;
          if kw \<noteq> ''alias'' then Some result
          else case find_char line (CHR ''='') (start + 5) of
            None \<Rightarrow> Some result
          | Some eqPos \<Rightarrow> do {
              namePart \<leftarrow> substr line (start + 5) (eqPos - start - 5);
              parse_after_eq line eqPos namePart
            }
        })"

definition isAliasLine :: "string \<Rightarrow> bool" where
  "isAliasLine line =
     (case find_first_not_of line [CHR '' '', tab] of
        None \<Rightarrow> False
      | Some start \<Rightarrow> substr line start 5 = Some ''alias'')"

section \<open>Vocabulary of the statements\<close>

text \<open>Horizontal whitespace as the codec skips it: the two characters of \<open>" \t"\<close>.\<close>

definition is_ws :: "char \<Rightarrow> bool" where
  "is_ws c = (c = CHR '' '' \<or> c = tab)"

text \<open>A string with its leading and trailing horizontal whitespace removed.\<close>

definition trim_ws :: "string \<Rightarrow> string" where
  "trim_ws s = rev (dropWhile is_ws (rev (dropWhile is_ws s)))"

section \<open>The filesystem, the clock and the external compressor\<close>

type_synonym path = string

text \<open>
  File contents: raw bytes, or the \<open>xz\<close> container of some contents. A directory entry
  is a regular file or something else (a directory, a socket, ...).
\<close>

datatype fdata = Raw string | Xz fdata

record fentry =
  regular :: bool
  mtime :: int
  fdata :: fdata

text \<open>
  The mutable part of the world: the directory entries, keyed by their full path and
  listed in the order a directory iteration reports them, and the \<open>lastError\<close> member of
  the \<open>BackupManager\<close>.
\<close>

record state =
  files :: "(path \<times> fentry) list"
  lastError :: string

text \<open>
  \<open>struct tm\<close> as \<open>localtime\<close> fills it (only the fields \<open>put_time\<close> reads).
  The fields are \<open>int\<close>s; none of them is negative for a time after the year 1900.
\<close>

record tm =
  tm_year :: nat
  tm_mon :: nat
  tm_mday :: nat
  tm_hour :: nat
  tm_min :: nat
  tm_sec :: nat

text \<open>
  What the environment decides: \<open>$HOME\<close>, the clock, which filesystem calls throw,
  which \<open>xz\<close> runs exit non-zero, the text of \<open>e.what()\<close>, and the order in which
  \<open>std::sort\<close> leaves entries of equal time.
\<close>

record env =
  home :: "string option"
  now :: tm
  clock :: int
  what :: string
  cannot_status :: "path \<Rightarrow> bool"
  cannot_stat :: "path \<Rightarrow> bool"
  cannot_remove :: "path \<Rightarrow> bool"
  cannot_write :: "path \<Rightarrow> bool"
  cannot_list :: "path \<Rightarrow> bool"
  cannot_mkdir :: "path \<Rightarrow> bool"
  cannot_chmod :: "path \<Rightarrow> bool"
  xz_fails :: "path \<Rightarrow> bool"
  sort_newest :: "(path \<times> int) list \<Rightarrow> (path \<times> int) list"

subsection \<open>std::filesystem::path\<close>

text \<open>\<open>path::filename()\<close>: what follows the last separator.\<close>

definition filename :: "path \<Rightarrow> string" where
  "filename p = rev (takeWhile (\<lambda>c. c \<noteq> CHR ''/'') (rev p))"

text \<open>\<open>path::parent_path()\<close>, for paths without repeated leading separators.\<close>

definition parent_path :: "path \<Rightarrow> path" where
  "parent_path p =
     (let stem = dropWhile (\<lambda>c. c \<noteq> CHR ''/'') (rev p) in
      if stem = [] then []
      else (let d = dropWhile (\<lambda>c. c = CHR ''/'') stem in
            if d = [] then ''/'' else rev d))"

text \<open>\<open>fs::path(d) / f\<close>.\<close>

definition path_join :: "path \<Rightarrow> string \<Rightarrow> path" where
  "path_join d f =
     (if f \<noteq> [] \<and> hd f = CHR ''/'' then f
      else if d = [] then f
      else if last d = CHR ''/'' then d @ f
      else d @ ''/'' @ f)"

subsection \<open>Filesystem calls\<close>

text \<open>Whether the directory tree has an entry at \<open>p\<close>.\<close>

definition fs_exists :: "state \<Rightarrow> path \<Rightarrow> bool" where
  "fs_exists st p = (map_of (files st) p \<noteq> None)"

text \<open>
  The call \<open>fs::exists(p)\<close>: \<open>None\<close> when the status of \<open>p\<close> cannot be read and the
  call throws \<open>filesystem_error\<close>, else whether \<open>p\<close> exists.
\<close>

definition exists_or_throw :: "env \<Rightarrow> state \<Rightarrow> path \<Rightarrow> bool option" where
  "exists_or_throw e st p = (if cannot_status e p then None else Some (fs_exists st p))"

text \<open>
  \<open>fs::copy_file(src, dst, overwrite_existing)\<close>; \<open>None\<close> is a thrown
  \<open>filesystem_error\<close>.
\<close>

definition fs_copy_file :: "env \<Rightarrow> state \<Rightarrow> path \<Rightarrow> path \<Rightarrow> state option" where
  "fs_copy_file e st src dst =
     (case map_of (files st) src of
        None \<Rightarrow> None
      | Some f \<Rightarrow>
          if \<not> regular f \<or> src = dst \<or> cannot_write e dst
             \<or> (case map_of (files st) dst of Some g \<Rightarrow> \<not> regular g | None \<Rightarrow> False)
          then None
          else Some (st\<lparr>files := AList.update dst
                       \<lparr>regular = True, mtime = clock e, fdata = fdata f\<rparr> (files st)\<rparr>))"

text \<open>\<open>fs::remove(p)\<close>: \<open>None\<close> when it throws, else whether something was removed.\<close>

definition fs_remove :: "env \<Rightarrow> state \<Rightarrow> path \<Rightarrow> (bool \<times> state) option" where
  "fs_remove e st p =
     (if cannot_remove e p then None
      else if fs_exists st p then Some (True, st\<lparr>files := AList.delete p (files st)\<rparr>)
      else Some (False, st))"

text \<open>\<open>fs::last_write_time(p)\<close>: \<open>None\<close> when it throws.\<close>

definition last_write_time :: "env \<Rightarrow> state \<Rightarrow> path \<Rightarrow> int option" where
  "last_write_time e st p =
     (if cannot_stat e p then None else map_option mtime (map_of (files st) p))"

text \<open>
  \<open>fs::directory_iterator(dir)\<close>: the entries directly inside \<open>dir\<close>, or \<open>None\<close> when
  the iterator cannot be opened (the empty path never can).
\<close>

definition is_child :: "path \<Rightarrow> path \<Rightarrow> bool" where
  "is_child dir p =
     (let pre = path_join dir [] in
      take (length pre) p = pre \<and>
      drop (length pre) p \<noteq> [] \<and> CHR ''/'' \<notin> set (drop (length pre) p))"

definition directory_iterator :: "env \<Rightarrow> state \<Rightarrow> path \<Rightarrow> (path \<times> fentry) list option" where
  "directory_iterator e st dir =
     (if dir = [] \<or> cannot_list e dir then None
      else Some (filter (\<lambda>(p, f). is_child dir p) (files st)))"

subsection \<open>The xz command line\<close>

text \<open>
  \<open>xz -9e p\<close> replaces \<open>p\<close> by \<open>p.xz\<close>, keeping the modification time; it exits
  non-zero when \<open>p\<close> is not a regular file or \<open>p.xz\<close> exists already. The result is the
  pair of "exit status was 0" and the new state. The command line goes through
  \<open>std::system\<close>; the path is taken as one word of it (no blanks or shell
  metacharacters), and every other reason for \<open>xz\<close> to fail is \<open>xz_fails\<close>.
\<close>

definition xz_compress :: "env \<Rightarrow> state \<Rightarrow> path \<Rightarrow> bool \<times> state" where
  "xz_compress e st p =
     (case map_of (files st) p of
        None \<Rightarrow> (False, st)
      | Some f \<Rightarrow>
          if xz_fails e p \<or> \<not> regular f \<or> fs_exists st (p @ ''.xz'') then (False, st)
          else (True, st\<lparr>files := AList.update (p @ ''.xz'') (f\<lparr>fdata := Xz (fdata f)\<rparr>)
                                     (AList.delete p (files st))\<rparr>))"

text \<open>
  \<open>xz -d -k -f p\<close> writes the contents of the container \<open>p\<close> to \<open>p\<close> without its
  \<open>.xz\<close> suffix, overwriting, and keeps \<open>p\<close>.
\<close>

definition xz_decompress :: "env \<Rightarrow> state \<Rightarrow> path \<Rightarrow> bool \<times> state" where
  "xz_decompress e st p =
     (case map_of (files st) p of
        None \<Rightarrow> (False, st)
      | Some f \<Rightarrow>
          (case fdata f of
             Raw _ \<Rightarrow> (False, st)
           | Xz d \<Rightarrow>
               if xz_fails e p \<or> \<not> regular f \<or> length p < 3 \<or> drop (length p - 3) p \<noteq> ''.xz''
               then (False, st)
               else (True, st\<lparr>files := AList.update (take (length p - 3) p)
                                          (f\<lparr>fdata := d\<rparr>) (files st)\<rparr>)))"

subsection \<open>Timestamps\<close>

definition digit :: "nat \<Rightarrow> char" where
  "digit n = char_of (48 + n mod 10)"

fun decimal :: "nat \<Rightarrow> string" where
  "decimal n = (if n < 10 then [digit n] else decimal (n div 10) @ [digit n])"

text \<open>The two-digit, zero-padded conversions \<open>%m %d %H %M %S\<close>.\<close>

definition pad2 :: "nat \<Rightarrow> string" where
  "pad2 n = (if n < 10 then [CHR ''0'', digit n] else decimal n)"

definition generateTimestamp :: "tm \<Rightarrow> string" where
  "generateTimestamp t =
     decimal (1900 + tm_year t) @ pad2 (tm_mon t + 1) @ pad2 (tm_mday t) @ ''_'' @
     pad2 (tm_hour t) @ pad2 (tm_min t) @ pad2 (tm_sec t)"

section \<open>BackupManager\<close>

text \<open>\<open>s.find(pat)\<close> for a string pattern: the first position where \<open>pat\<close> occurs.\<close>

fun find_str :: "string \<Rightarrow> string \<Rightarrow> nat option" where
  "find_str [] pat = (if pat = [] then Some 0 else None)"
| "find_str (c # cs) pat =
     (if take (length pat) (c # cs) = pat then Some 0
      else map_option Suc (find_str cs pat))"

definition getBackupBaseName :: "path \<Rightarrow> string" where
  "getBackupBaseName originalFilePath = filename originalFilePath @ ''.bak''"

text \<open>
  \<open>getBackupDirectory\<close> returns the directory and the state it leaves: the directory
  may have been created, and \<open>lastError\<close> is written when a call inside the \<open>try\<close>
  block throws (\<open>exists\<close>, \<open>create_directories\<close> or \<open>permissions\<close>).
\<close>

definition getBackupDirectory :: "env \<Rightarrow> path \<Rightarrow> state \<Rightarrow> path \<times> state" where
  "getBackupDirectory e originalFilePath st =
     (case home e of
        None \<Rightarrow> (parent_path originalFilePath, st)
      | Some homeDir \<Rightarrow>
          (let backupDir = path_join homeDir ''.shellbackup'' in
           case exists_or_throw e st backupDir of
             None \<Rightarrow>
               (parent_path originalFilePath,
                st\<lparr>lastError := ''Failed to create backup directory: '' @ what e\<rparr>)
           | Some True \<Rightarrow> (backupDir, st)
           | Some False \<Rightarrow>
               (if cannot_mkdir e backupDir then
                  (parent_path originalFilePath,
                   st\<lparr>lastError := ''Failed to create backup directory: '' @ what e\<rparr>)
                else
                  (let st' = st\<lparr>files := AList.update backupDir
                                \<lparr>regular = False, mtime = clock e, fdata = Raw []\<rparr> (files st)\<rparr> in
                   if cannot_chmod e backupDir then
                     (parent_path originalFilePath,
                      st'\<lparr>lastError := ''Failed to create backup directory: '' @ what e\<rparr>)
                   else (backupDir, st')))))"

definition listBackups :: "env \<Rightarrow> path \<Rightarrow> state \<Rightarrow> path list \<times> state" where
  "listBackups e originalFilePath st =
     (let backupPattern = getBackupBaseName originalFilePath;
          (backupDir, st1) = getBackupDirectory e originalFilePath st in
      case directory_iterator e st1 backupDir of
        None \<Rightarrow> ([], st1\<lparr>lastError := ''Failed to list backups: '' @ what e\<rparr>)
      | Some entries \<Rightarrow>
          (map fst (filter (\<lambda>(p, f). regular f \<and> find_str (filename p) backupPattern \<noteq> None)
                      entries),
           st1))"

text \<open>
  The loop that pairs each backup with its modification time and skips the ones whose
  time cannot be read.
\<close>

fun with_times :: "env \<Rightarrow> state \<Rightarrow> path list \<Rightarrow> (path \<times> int) list" where
  "with_times e st [] = []"
| "with_times e st (backup # backups) =
     (case last_write_time e st backup of
        None \<Rightarrow> with_times e st backups
      | Some t \<Rightarrow> (backup, t) # with_times e st backups)"

text \<open>
  \<open>path.substr(path.size() - 3)\<close>: for a path shorter than three characters the
  subtraction wraps to a position beyond the end and \<open>substr\<close> throws (\<open>None\<close>).
\<close>

definition last3 :: "path \<Rightarrow> string option" where
  "last3 p = (if length p < 3 then None else substr_from p (length p - 3))"

text \<open>
  The main loop of \<open>cleanupAndCompressOldBackups\<close> from index \<open>i\<close> on. The result is
  \<open>None\<close> when \<open>std::out_of_range\<close> leaves the function, else the value of \<open>deleted\<close>.
\<close>

fun cleanup_loop ::
  "env \<Rightarrow> nat \<Rightarrow> (path \<times> int) list \<Rightarrow> nat \<Rightarrow> nat \<Rightarrow> state \<Rightarrow> nat option \<times> state" where
  "cleanup_loop e maxBackups [] i deleted st = (Some deleted, st)"
| "cleanup_loop e maxBackups ((p, t) # rest) i deleted st =
     (if i \<ge> maxBackups then
        (case fs_remove e st p of
           None \<Rightarrow> cleanup_loop e maxBackups rest (i + 1) deleted st
         | Some (_, st') \<Rightarrow> cleanup_loop e maxBackups rest (i + 1) (deleted + 1) st')
      else if i \<ge> 10 then
        (case last3 p of
           None \<Rightarrow> (None, st)
         | Some suffix \<Rightarrow>
             if suffix \<noteq> ''.xz'' then
               (case xz_compress e st p of
                  (ok, st') \<Rightarrow>
                    cleanup_loop e maxBackups rest (i + 1) deleted
                      (if ok then st' else st'\<lparr>lastError := ''Failed to compress backup: '' @ p\<rparr>))
             else cleanup_loop e maxBackups rest (i + 1) deleted st)
      else cleanup_loop e maxBackups rest (i + 1) deleted st)"

definition cleanupAndCompressOldBackups ::
  "env \<Rightarrow> path \<Rightarrow> int \<Rightarrow> state \<Rightarrow> nat option \<times> state" where
  "cleanupAndCompressOldBackups e originalFilePath maxBackups st =
     (let maxBackups = (if maxBackups \<le> 0 then 20 else maxBackups);
          (backups, st1) = listBackups e originalFilePath st;
          backupsWithTime = sort_newest e (with_times e st1 backups)
      in cleanup_loop e (nat maxBackups) backupsWithTime 0 0 st1)"

text \<open>
  \<open>createBackup\<close>. The first component is \<open>None\<close> when an exception leaves the
  function: \<open>fs::exists(originalFilePath)\<close> stands before the \<open>try\<close> block. The
  rotation runs inside the \<open>try\<close> block, so an exception that leaves it is reported
  like a failed copy.
\<close>

definition createBackup :: "env \<Rightarrow> path \<Rightarrow> state \<Rightarrow> path option \<times> state" where
  "createBackup e originalFilePath st =
     (case exists_or_throw e st originalFilePath of
        None \<Rightarrow> (None, st)
      | Some False \<Rightarrow>
          (Some [], st\<lparr>lastError := ''Original file does not exist: '' @ originalFilePath\<rparr>)
      | Some True \<Rightarrow>
          (let (backupDir, st1) = getBackupDirectory e originalFilePath st;
               backupFilename = filename originalFilePath @ ''.bak'' @ generateTimestamp (now e);
               backupPath = path_join backupDir backupFilename in
           case fs_copy_file e st1 originalFilePath backupPath of
             None \<Rightarrow> (Some [], st1\<lparr>lastError := ''Failed to create backup: '' @ what e\<rparr>)
           | Some st2 \<Rightarrow>
               (case cleanupAndCompressOldBackups e originalFilePath 20 st2 of
                  (None, st3) \<Rightarrow>
                    (Some [], st3\<lparr>lastError := ''Failed to create backup: '' @ what e\<rparr>)
                | (Some deleted, st3) \<Rightarrow> (Some backupPath, st3))))"

text \<open>
  \<open>restoreFromBackup\<close>; the first component is \<open>None\<close> when an exception leaves the
  function: \<open>std::out_of_range\<close> from \<open>substr\<close>, or \<open>filesystem_error\<close> from
  \<open>fs::exists\<close>, which stands before the \<open>try\<close> block.
\<close>

definition restore_copy :: "env \<Rightarrow> path \<Rightarrow> path \<Rightarrow> state \<Rightarrow> bool option \<times> state" where
  "restore_copy e originalFilePath actualBackupPath st =
     (case exists_or_throw e st actualBackupPath of
        None \<Rightarrow> (None, st)
      | Some False \<Rightarrow>
          (Some False, st\<lparr>lastError := ''Backup file does not exist: '' @ actualBackupPath\<rparr>)
      | Some True \<Rightarrow>
          (case fs_copy_file e st actualBackupPath originalFilePath of
             None \<Rightarrow>
               (Some False, st\<lparr>lastError := ''Failed to restore from backup: '' @ what e\<rparr>)
           | Some st' \<Rightarrow> (Some True, st')))"

definition restoreFromBackup :: "env \<Rightarrow> path \<Rightarrow> path \<Rightarrow> state \<Rightarrow> bool option \<times> state" where
  "restoreFromBackup e originalFilePath backupPath st =
     (case last3 backupPath of
        None \<Rightarrow> (None, st)
      | Some suffix \<Rightarrow>
          if suffix = ''.xz'' then
            (let actualBackupPath = take (length backupPath - 3) backupPath in
             case xz_decompress e st backupPath of
               (ok, st1) \<Rightarrow>
                 if \<not> ok then
                   (Some False, st1\<lparr>lastError := ''Failed to decompress backup: '' @ backupPath\<rparr>)
                 else restore_copy e originalFilePath actualBackupPath st1)
          else restore_copy e originalFilePath backupPath st)"

text \<open>
  \<open>getLastBackupPath\<close>. \<open>std::sort\<close> keeps the number of elements, so
  \<open>backupsWithTime[0]\<close> exists; for a \<open>sort_newest\<close> that returned nothing the model
  answers with the empty path.
\<close>

definition getLastBackupPath :: "env \<Rightarrow> path \<Rightarrow> state \<Rightarrow> path \<times> state" where
  "getLastBackupPath e originalFilePath st =
     (let (backups, st1) = listBackups e originalFilePath st in
      if backups = [] then ([], st1)
      else (let backupsWithTime = with_times e st1 backups in
            if backupsWithTime = [] then ([], st1)
            else (case sort_newest e backupsWithTime of
                    [] \<Rightarrow> ([], st1)
                  | newest # _ \<Rightarrow> (fst newest, st1))))"

definition restoreFromLastBackup :: "env \<Rightarrow> path \<Rightarrow> state \<Rightarrow> bool option \<times> state" where
  "restoreFromLastBackup e originalFilePath st =
     (let (lastBackup, st1) = getLastBackupPath e originalFilePath st in
      if lastBackup = [] then (Some False, st1\<lparr>lastError := ''No backup found''\<rparr>)
      else restoreFromBackup e originalFilePath lastBackup st1)"

text \<open>The contract of \<open>std::sort\<close> with the comparison \<open>a.second > b.second\<close>.\<close>

definition sorts_newest_first :: "((path \<times> int) list \<Rightarrow> (path \<times> int) list) \<Rightarrow> bool" where
  "sorts_newest_first srt =
     (\<forall>xs. mset (srt xs) = mset xs \<and> sorted_wrt (\<lambda>a b. snd a \<ge> snd b) (srt xs))"

text \<open>A clock whose year has four digits and whose other fields are in their ranges.\<close>

definition tm_in_range :: "tm \<Rightarrow> bool" where
  "tm_in_range t =
     (tm_year t \<le> 8099 \<and> tm_mon t \<le> 11 \<and> 1 \<le> tm_mday t \<and> tm_mday t \<le> 31 \<and>
      tm_hour t \<le> 23 \<and> tm_min t \<le> 59 \<and> tm_sec t \<le> 60)"

text \<open>The number a string of decimal digits denotes.\<close>

definition decimal_value :: "string \<Rightarrow> nat" where
  "decimal_value s = foldl (\<lambda>a c. 10 * a + (of_char c - 48)) 0 s"

section \<open>A sample environment\<close>

text \<open>
  A sort that meets the contract, a directory holding the tracked file \<open>/d/f\<close> and 25
  backups of it (the one at position 12 compressed), an environment in which \<open>xz\<close>
  fails on one backup and one removal throws, and a directory with a single backup in
  an environment where no modification time can be read. Then an environment in which
  the status of \<open>/d/f\<close> cannot be read, with an empty directory, and a directory that
  holds the tracked file and ten backups whose modification times lie after the clock.
\<close>

definition sample_sort :: "(path \<times> int) list \<Rightarrow> (path \<times> int) list" where
  "sample_sort xs = rev (sort_key snd xs)"

definition env25 :: env where
  "env25 = \<lparr>home = None,
            now = \<lparr>tm_year = 124, tm_mon = 0, tm_mday = 15, tm_hour = 14, tm_min = 30, tm_sec = 25\<rparr>,
            clock = 1000, what = ''filesystem error'',
            cannot_status = (\<lambda>p. False),
            cannot_stat = (\<lambda>p. False), cannot_remove = (\<lambda>p. p = ''/d/f.bak22''),
            cannot_write = (\<lambda>p. False), cannot_list = (\<lambda>p. False),
            cannot_mkdir = (\<lambda>p. False), cannot_chmod = (\<lambda>p. False),
            xz_fails = (\<lambda>p. p = ''/d/f.bak11''), sort_newest = sample_sort\<rparr>"

definition world25 :: state where
  "world25 = \<lparr>files =
       [(''/d/f.bak24'', \<lparr>regular = True, mtime = 76, fdata = Raw ''old''\<rparr>),
        (''/d/f.bak23'', \<lparr>regular = True, mtime = 77, fdata = Raw ''old''\<rparr>),
        (''/d/f.bak22'', \<lparr>regular = True, mtime = 78, fdata = Raw ''old''\<rparr>),
        (''/d/f.bak21'', \<lparr>regular = True, mtime = 79, fdata = Raw ''old''\<rparr>),
        (''/d/f.bak20'', \<lparr>regular = True, mtime = 80, fdata = Raw ''old''\<rparr>),
        (''/d/f.bak19'', \<lparr>regular = True, mtime = 81, fdata = Raw ''old''\<rparr>),
        (''/d/f.bak18'', \<lparr>regular = True, mtime = 82, fdata = Raw ''old''\<rparr>),
        (''/d/f'', \<lparr>regular = True, mtime = 500, fdata = Raw ''new''\<rparr>),
        (''/d/f.bak17'', \<lparr>regular = True, mtime = 83, fdata = Raw ''old''\<rparr>),
        (''/d/f.bak16'', \<lparr>regular = True, mtime = 84, fdata = Raw ''old''\<rparr>),
        (''/d/f.bak15'', \<lparr>regular = True, mtime = 85, fdata = Raw ''old''\<rparr>),
        (''/d/f.bak14'', \<lparr>regular = True, mtime = 86, fdata = Raw ''old''\<rparr>),
        (''/d/f.bak13'', \<lparr>regular = True, mtime = 87, fdata = Raw ''old''\<rparr>),
        (''/d/f.bak12.xz'', \<lparr>regular = True, mtime = 88, fdata = Xz (Raw ''old'')\<rparr>),
        (''/d/f.bak11'', \<lparr>regular = True, mtime = 89, fdata = Raw ''old''\<rparr>),
        (''/d/f.bak10'', \<lparr>regular = True, mtime = 90, fdata = Raw ''old''\<rparr>),
        (''/d/f.bak09'', \<lparr>regular = True, mtime = 91, fdata = Raw ''old''\<rparr>),
        (''/d/f.bak08'', \<lparr>regular = True, mtime = 92, fdata = Raw ''old''\<rparr>),
        (''/d/f.bak07'', \<lparr>regular = True, mtime = 93, fdata = Raw ''old''\<rparr>),
        (''/d/f.bak06'', \<lparr>regular = True, mtime = 94, fdata = Raw ''old''\<rparr>),
        (''/d/f.bak05'', \<lparr>regular = True, mtime = 95, fdata = Raw ''old''\<rparr>),
        (''/d/f.bak04'', \<lparr>regular = True, mtime = 96, fdata = Raw ''old''\<rparr>),
        (''/d/f.bak03'', \<lparr>regular = True, mtime = 97, fdata = Raw ''old''\<rparr>),
        (''/d/f.bak02'', \<lparr>regular = True, mtime = 98, fdata = Raw ''old''\<rparr>),
        (''/d/f.bak01'', \<lparr>regular = True, mtime = 99, fdata = Raw ''old''\<rparr>),
        (''/d/f.bak00'', \<lparr>regular = True, mtime = 100, fdata = Raw ''old''\<rparr>)],
     lastError = []\<rparr>"

definition backups25 :: "path list" where
  "backups25 = [''/d/f.bak24'', ''/d/f.bak23'', ''/d/f.bak22'', ''/d/f.bak21'', ''/d/f.bak20'', ''/d/f.bak19'', ''/d/f.bak18'', ''/d/f.bak17'', ''/d/f.bak16'', ''/d/f.bak15'', ''/d/f.bak14'', ''/d/f.bak13'', ''/d/f.bak12.xz'', ''/d/f.bak11'', ''/d/f.bak10'', ''/d/f.bak09'', ''/d/f.bak08'', ''/d/f.bak07'', ''/d/f.bak06'', ''/d/f.bak05'', ''/d/f.bak04'', ''/d/f.bak03'', ''/d/f.bak02'', ''/d/f.bak01'', ''/d/f.bak00'']"

definition sorted25 :: "path list" where
  "sorted25 = [''/d/f.bak00'', ''/d/f.bak01'', ''/d/f.bak02'', ''/d/f.bak03'', ''/d/f.bak04'', ''/d/f.bak05'', ''/d/f.bak06'', ''/d/f.bak07'', ''/d/f.bak08'', ''/d/f.bak09'', ''/d/f.bak10'', ''/d/f.bak11'', ''/d/f.bak12.xz'', ''/d/f.bak13'', ''/d/f.bak14'', ''/d/f.bak15'', ''/d/f.bak16'', ''/d/f.bak17'', ''/d/f.bak18'', ''/d/f.bak19'', ''/d/f.bak20'', ''/d/f.bak21'', ''/d/f.bak22'', ''/d/f.bak23'', ''/d/f.bak24'']"

definition env_nostat :: env where
  "env_nostat = env25\<lparr>cannot_stat := (\<lambda>p. True), cannot_remove := (\<lambda>p. False),
                       xz_fails := (\<lambda>p. False)\<rparr>"

definition world1 :: state where
  "world1 = \<lparr>files = [(''/d/f'', \<lparr>regular = True, mtime = 500, fdata = Raw ''new''\<rparr>),
                       (''/d/f.bak1'', \<lparr>regular = True, mtime = 100, fdata = Raw ''old''\<rparr>)],
             lastError = []\<rparr>"

definition env_unreadable :: env where
  "env_unreadable = env25\<lparr>cannot_status := (\<lambda>p. p = ''/d/f'')\<rparr>"

definition world0 :: state where
  "world0 = \<lparr>files = [], lastError = []\<rparr>"

definition world10 :: state where
  "world10 = \<lparr>files =
       [(''/d/f'', \<lparr>regular = True, mtime = 500, fdata = Raw ''new''\<rparr>),
        (''/d/f.bak00'', \<lparr>regular = True, mtime = 2010, fdata = Raw ''old''\<rparr>),
        (''/d/f.bak01'', \<lparr>regular = True, mtime = 2009, fdata = Raw ''old''\<rparr>),
        (''/d/f.bak02'', \<lparr>regular = True, mtime = 2008, fdata = Raw ''old''\<rparr>),
        (''/d/f.bak03'', \<lparr>regular = True, mtime = 2007, fdata = Raw ''old''\<rparr>),
        (''/d/f.bak04'', \<lparr>regular = True, mtime = 2006, fdata = Raw ''old''\<rparr>),
        (''/d/f.bak05'', \<lparr>regular = True, mtime = 2005, fdata = Raw ''old''\<rparr>),
        (''/d/f.bak06'', \<lparr>regular = True, mtime = 2004, fdata = Raw ''old''\<rparr>),
        (''/d/f.bak07'', \<lparr>regular = True, mtime = 2003, fdata = Raw ''old''\<rparr>),
        (''/d/f.bak08'', \<lparr>regular = True, mtime = 2002, fdata = Raw ''old''\<rparr>),
        (''/d/f.bak09'', \<lparr>regular = True, mtime = 2001, fdata = Raw ''old''\<rparr>)],
     lastError = []\<rparr>"

declare decimal.simps [simp del]

section \<open>Facts about the string primitives\<close>

lemma first_index_char:
  "first_index P xs =
     (if \<exists>x\<in>set xs. P x then Some (length (takeWhile (\<lambda>x. \<not> P x) xs)) else None)"
  by (induction xs) auto

lemma find_first_not_of_ws:
  "find_first_not_of s [CHR '' '', tab] =
     (if \<forall>c\<in>set s. is_ws c then None else Some (length (takeWhile is_ws s)))"
proof -
  have "(\<lambda>x. \<not> x \<notin> set [CHR '' '', tab]) = is_ws" by (auto simp: is_ws_def)
  then show ?thesis by (auto simp: find_first_not_of_def first_index_char is_ws_def)
qed

lemma find_last_not_of_ws:
  "find_last_not_of s [CHR '' '', tab] =
     (if \<forall>c\<in>set s. is_ws c then None
      else Some (length s - 1 - length (takeWhile is_ws (rev s))))"
proof -
  have "(\<lambda>x. \<not> x \<notin> set [CHR '' '', tab]) = is_ws" by (auto simp: is_ws_def)
  then show ?thesis by (auto simp: find_last_not_of_def first_index_char is_ws_def)
qed

lemma find_char_eq:
  "find_char s c pos =
     (if c \<in> set (drop pos s)
      then Some (pos + length (takeWhile (\<lambda>x. x \<noteq> c) (drop pos s))) else None)"
  by (auto simp: find_char_def first_index_char)

lemma takeWhile_stop: "\<forall>x\<in>set xs. P x \<Longrightarrow> \<not> P y \<Longrightarrow> takeWhile P (xs @ y # ys) = xs"
  by (induction xs) auto

lemma takeWhile_short: "\<exists>x\<in>set xs. \<not> P x \<Longrightarrow> length (takeWhile P xs) < length xs"
  by (induction xs) auto

lemma substr_from_append: "n = length xs \<Longrightarrow> substr_from (xs @ ys) n = Some ys"
  by (simp add: substr_from_def)

lemma trim_ws_all:
  assumes "\<forall>c\<in>set mid. is_ws c"
  shows "trim_ws mid = []"
proof -
  have h: "dropWhile is_ws mid = []" using assms by (simp only: dropWhile_eq_Nil_conv)
  show ?thesis unfolding trim_ws_def h by simp
qed

lemma trim_ws_nonempty:
  assumes "\<not> (\<forall>c\<in>set s. is_ws c)"
  shows "trim_ws s \<noteq> []"
proof -
  have "dropWhile is_ws s \<noteq> []" using assms by (simp only: dropWhile_eq_Nil_conv not_False_eq_True)
  then have "\<not> is_ws (hd (dropWhile is_ws s))" by (rule hd_dropWhile)
  with \<open>dropWhile is_ws s \<noteq> []\<close> have "\<exists>x\<in>set (rev (dropWhile is_ws s)). \<not> is_ws x"
    by (metis hd_in_set set_rev)
  then have "dropWhile is_ws (rev (dropWhile is_ws s)) \<noteq> []"
    by (simp only: dropWhile_eq_Nil_conv) blast
  then show ?thesis by (simp add: trim_ws_def)
qed

text \<open>
  The \<open>find_first_not_of\<close> / \<open>find_last_not_of\<close> / \<open>substr\<close> idiom of the source
  computes \<open>trim_ws\<close>.
\<close>

lemma trim_ws_take:
  assumes "\<not> (\<forall>c\<in>set s. is_ws c)"
  shows "take (length s - 1 - length (takeWhile is_ws (rev s)) - length (takeWhile is_ws s) + 1)
              (drop (length (takeWhile is_ws s)) s) = trim_ws s"
proof -
  define t where "t = dropWhile is_ws s"
  define a where "a = length (takeWhile is_ws s)"
  define b where "b = length (takeWhile is_ws (rev s))"
  have s: "s = takeWhile is_ws s @ t" by (simp add: t_def)
  have t_nws: "\<exists>x\<in>set t. \<not> is_ws x"
    using assms unfolding t_def by (metis dropWhile_eq_Nil_conv hd_dropWhile hd_in_set)
  have dr: "drop a s = t" by (simp add: t_def a_def dropWhile_eq_drop)
  have len: "length t = length s - a" using dr[symmetric] by simp
  have "rev s = rev t @ rev (takeWhile is_ws s)" by (subst s) simp
  then have "takeWhile is_ws (rev s) = takeWhile is_ws (rev t)"
    using t_nws by (metis set_rev takeWhile_append1)
  then have b: "b = length (takeWhile is_ws (rev t))" by (simp add: b_def)
  have blt: "b < length t" unfolding b using takeWhile_short[of "rev t" is_ws] t_nws by simp
  have "trim_ws s = rev (drop b (rev t))"
    unfolding trim_ws_def t_def[symmetric] b by (simp add: dropWhile_eq_drop)
  also have "\<dots> = take (length t - b) t" by (simp add: rev_drop)
  finally have tr: "trim_ws s = take (length t - b) t" .
  have "length s - 1 - b - a + 1 = length t - b" using blt len by arith
  then show ?thesis unfolding tr a_def[symmetric] b_def[symmetric] dr by simp
qed

section \<open>Escaping and unescaping\<close>

lemma escape_loop_append: "escape_loop s e = e @ escape_loop s []"
proof (induction s arbitrary: e)
  case Nil
  show ?case by simp
next
  case (Cons c cs)
  show ?case
    using Cons.IH[of "(if needs_escape c then e @ [backslash] else e) @ [c]"]
          Cons.IH[of "(if needs_escape c then [backslash] else []) @ [c]"]
    by (cases "needs_escape c") simp_all
qed

lemma escapeCommand_Cons:
  "escapeCommand (c # cs) = (if needs_escape c then [backslash, c] else [c]) @ escapeCommand cs"
  unfolding escapeCommand_def
  using escape_loop_append[of cs "(if needs_escape c then [] @ [backslash] else []) @ [c]"]
  by simp

lemma unescape_loop_escape:
  "unescape_loop (escapeCommand s @ rest) u False = unescape_loop rest (u @ s) False"
proof (induction s arbitrary: u)
  case Nil
  show ?case by (simp add: escapeCommand_def)
next
  case (Cons c cs)
  show ?case using Cons.IH[of "u @ [c]"]
    by (simp add: escapeCommand_Cons needs_escape_def)
qed

lemma unescape_escape_id: "unescapeString (escapeCommand s) = s"
  using unescape_loop_escape[of s "[]" "[]"] by (simp add: unescapeString_def)

text \<open>
  C9. For every string \<open>s\<close>, unescaping the escaped string gives \<open>s\<close> back:
  \<open>unescapeString\<close> is a left inverse of \<open>escapeCommand\<close>, also on strings that
  contain backslashes or the escaped special characters.
\<close>

theorem unescapeString_escapeCommand: "unescapeString (escapeCommand s) = s"
proof -
  have "unescape_loop (escapeCommand s @ []) [] False = unescape_loop [] ([] @ s) False"
    by (rule unescape_loop_escape)
  then have "unescape_loop (escapeCommand s) [] False = (s, False)" by simp
  then show ?thesis by (simp add: unescapeString_def)
qed

section \<open>Name validation\<close>

text \<open>
  C4. \<open>validateAliasName\<close> holds exactly for the names of 1 to 255 characters whose
  first character is a letter, a digit or an underscore and whose remaining characters
  are letters, digits, underscores or hyphens. A conforming name of length 255 is
  accepted, one of length 256 is refused, the empty name is refused, \<open>_ok-1\<close> is accepted
  and \<open>bad name\<close> is refused.
\<close>

theorem validateAliasName_iff:
  "(validateAliasName nm \<longleftrightarrow>
      1 \<le> length nm \<and> length nm \<le> 255 \<and>
      (isalpha (hd nm) \<or> isdigit (hd nm) \<or> hd nm = CHR ''_'') \<and>
      (\<forall>c\<in>set (tl nm). isalpha c \<or> isdigit c \<or> c = CHR ''_'' \<or> c = CHR ''-''))
   \<and> validateAliasName (replicate 255 (CHR ''a''))
   \<and> \<not> validateAliasName (replicate 256 (CHR ''a''))
   \<and> \<not> validateAliasName []
   \<and> validateAliasName ''_ok-1''
   \<and> \<not> validateAliasName ''bad name''"
proof -
  have "validateAliasName nm \<longleftrightarrow>
      1 \<le> length nm \<and> length nm \<le> 255 \<and>
      (isalpha (hd nm) \<or> isdigit (hd nm) \<or> hd nm = CHR ''_'') \<and>
      (\<forall>c\<in>set (tl nm). isalpha c \<or> isdigit c \<or> c = CHR ''_'' \<or> c = CHR ''-'')"
    by (cases nm) (auto simp: validateAliasName_def isalnum_def list_all_iff)
  moreover have "validateAliasName (replicate 255 (CHR ''a''))"
    by (simp add: validateAliasName_def isalnum_def isalpha_def isdigit_def list_all_iff)
  moreover have "\<not> validateAliasName (replicate 256 (CHR ''a''))"
    by (simp add: validateAliasName_def)
  moreover have "\<not> validateAliasName []"
    by (simp add: validateAliasName_def)
  moreover have "validateAliasName ''_ok-1''"
    by (simp add: validateAliasName_def isalnum_def isalpha_def isdigit_def)
  moreover have "\<not> validateAliasName ''bad name''"
    by (simp add: validateAliasName_def isalnum_def isalpha_def isdigit_def)
  ultimately show ?thesis by blast
qed

text \<open>The equivalence at the name \<open>g-2\<close>.\<close>

theorem validateAliasName_iff_witness:
  "validateAliasName ''g-2'' \<and> length ''g-2'' = 3 \<and> isalpha (hd ''g-2'') \<and>
   list_all (\<lambda>c. isalpha c \<or> isdigit c \<or> c = CHR ''_'' \<or> c = CHR ''-'') (tl ''g-2'')"
  using validateAliasName_iff[of "''g-2''"] by (simp add: isalpha_def isdigit_def)

section \<open>Recognising and parsing alias lines\<close>

text \<open>
  C6. \<open>isAliasLine\<close> holds exactly when the five characters after the leading spaces
  and tabs are \<open>alias\<close>. Nothing is required of the character after the keyword, so
  \<open>aliasfoo=1\<close> is taken for an alias line.
\<close>

theorem isAliasLine_iff:
  "(isAliasLine line \<longleftrightarrow> take 5 (dropWhile is_ws line) = ''alias'')
   \<and> isAliasLine ''aliasfoo=1''"
proof -
  have "isAliasLine line \<longleftrightarrow> take 5 (dropWhile is_ws line) = ''alias''"
  proof (cases "\<forall>c\<in>set line. is_ws c")
    case True
    then have dw: "dropWhile is_ws line = []" by (simp only: dropWhile_eq_Nil_conv)
    show ?thesis unfolding dw using True by (simp add: isAliasLine_def find_first_not_of_ws)
  next
    case False
    have f: "find_first_not_of line [CHR '' '', tab] = Some (length (takeWhile is_ws line))"
      unfolding find_first_not_of_ws using False by (simp only: if_False)
    have "drop (length (takeWhile is_ws line)) line = dropWhile is_ws line"
      by (simp add: dropWhile_eq_drop)
    with length_takeWhile_le[of is_ws line] show ?thesis
      by (simp add: isAliasLine_def f substr_def)
  qed
  moreover have "isAliasLine ''aliasfoo=1''"
    by (simp add: isAliasLine_def find_first_not_of_def substr_def)
  ultimately show ?thesis by blast
qed

text \<open>
  C5. The five sample lines of the specification. A line that is not accepted comes
  back as the default-constructed record, whose name and command are empty
  (\<open>loadAliases\<close> drops every result with an empty name).
\<close>

theorem parseAliasLine_samples:
  "parseAliasLine (''alias ll='' @ [squote] @ ''ls -la'' @ [squote])
     = Some \<lparr>name = ''ll'', command = ''ls -la''\<rparr>
   \<and> parseAliasLine (''alias gcm='' @ [dquote] @ ''git commit -m '' @ [squote]
                      @ ''initial commit'' @ [squote] @ [dquote])
     = Some \<lparr>name = ''gcm'',
             command = ''git commit -m '' @ [squote] @ ''initial commit'' @ [squote]\<rparr>
   \<and> parseAliasLine (''alias ll = '' @ [squote] @ ''ls -la'' @ [squote])
     = Some \<lparr>name = ''ll'', command = ''ls -la''\<rparr>
   \<and> parseAliasLine ''not an alias'' = Some \<lparr>name = [], command = []\<rparr>
   \<and> parseAliasLine [] = Some \<lparr>name = [], command = []\<rparr>"
  by (simp add: parseAliasLine_def parse_after_eq_def extract_command_def
      find_first_not_of_def find_char_def find_last_not_of_def substr_def substr_from_def
      unescapeString_def)

lemma parse_head:
  assumes lead: "\<forall>c\<in>set lead. is_ws c" and mid: "CHR ''='' \<notin> set mid"
  shows "parseAliasLine (lead @ ''alias'' @ mid @ CHR ''='' # rest)
           = parse_after_eq (lead @ ''alias'' @ mid @ CHR ''='' # rest)
               (length lead + 5 + length mid) mid"
proof -
  let ?line = "lead @ ''alias'' @ mid @ CHR ''='' # rest"
  have tw: "takeWhile is_ws ?line = lead"
    using takeWhile_stop[of lead is_ws "CHR ''a''" "''lias'' @ mid @ CHR ''='' # rest"] lead
    by (simp add: is_ws_def)
  have nws: "\<not> (\<forall>c\<in>set ?line. is_ws c)" by (auto simp: is_ws_def)
  have start: "find_first_not_of ?line [CHR '' '', tab] = Some (length lead)"
    unfolding find_first_not_of_ws using nws tw by (simp del: set_append)
  have kw: "substr ?line (length lead) 5 = Some ''alias''"
    by (simp add: substr_def)
  have dr: "drop (length lead + 5) ?line = mid @ CHR ''='' # rest" by simp
  have tw2: "takeWhile (\<lambda>x. x \<noteq> CHR ''='') (mid @ CHR ''='' # rest) = mid"
    by (rule takeWhile_stop) (use mid in auto)
  have eq: "find_char ?line (CHR ''='') (length lead + 5) = Some (length lead + 5 + length mid)"
    unfolding find_char_eq dr tw2 by simp
  have np: "substr ?line (length lead + 5) (length lead + 5 + length mid - length lead - 5)
              = Some mid"
    unfolding substr_def dr by simp
  show ?thesis
    unfolding parseAliasLine_def
    by (simp only: start kw eq option.case bind.bind_lunit np Let_def if_False refl
        not_True_eq_False)
qed

lemma parse_name:
  assumes "\<not> (\<forall>c\<in>set mid. is_ws c)"
  shows "parse_after_eq line eqPos mid =
          do { commandPart \<leftarrow> substr_from line (eqPos + 1);
               case find_first_not_of commandPart [CHR '' '', tab] of
                 None \<Rightarrow> Some \<lparr>name = trim_ws mid, command = []\<rparr>
               | Some cmdStart \<Rightarrow> do {
                   cmd \<leftarrow> extract_command commandPart cmdStart;
                   Some \<lparr>name = trim_ws mid, command = unescapeString cmd\<rparr> } }"
proof -
  have le: "length (takeWhile is_ws mid) \<le> length mid" by (rule length_takeWhile_le)
  have nm: "substr mid (length (takeWhile is_ws mid))
              (length mid - 1 - length (takeWhile is_ws (rev mid)) - length (takeWhile is_ws mid) + 1)
            = Some (trim_ws mid)"
    using le trim_ws_take[OF assms] by (simp add: substr_def)
  have f1: "find_first_not_of mid [CHR '' '', tab] = Some (length (takeWhile is_ws mid))"
    unfolding find_first_not_of_ws using assms by (simp only: if_False)
  have f2: "find_last_not_of mid [CHR '' '', tab]
              = Some (length mid - 1 - length (takeWhile is_ws (rev mid)))"
    unfolding find_last_not_of_ws using assms by (simp only: if_False)
  show ?thesis
    unfolding parse_after_eq_def
    by (simp only: f1 f2 option.case nm Let_def bind.bind_lunit) (simp cong: option.case_cong)
qed

lemma parse_no_name:
  assumes "\<forall>c\<in>set mid. is_ws c"
  shows "parse_after_eq line eqPos mid = Some \<lparr>name = [], command = []\<rparr>"
  unfolding parse_after_eq_def find_first_not_of_ws[of mid] using assms by simp

text \<open>
  C10. A line \<open>alias <name>=\<close> followed by nothing but spaces and tabs is not refused:
  the result carries the trimmed name, which is not empty when the name part holds more
  than whitespace, and the empty command, which \<open>validateCommand\<close> does not accept.
  (Leading whitespace before the keyword is allowed as well; the name part is whatever
  stands between the keyword and the first equals sign.)
\<close>

theorem parseAliasLine_empty_command:
  assumes "\<forall>c\<in>set lead. is_ws c" and "CHR ''='' \<notin> set nm" and "\<forall>c\<in>set trail. is_ws c"
  shows "parseAliasLine (lead @ ''alias'' @ nm @ ''='' @ trail)
           = Some \<lparr>name = trim_ws nm, command = []\<rparr>
         \<and> (\<not> (\<forall>c\<in>set nm. is_ws c) \<longrightarrow> trim_ws nm \<noteq> [])
         \<and> \<not> validateCommand (command \<lparr>name = trim_ws nm, command = []\<rparr>)"
proof -
  let ?line = "lead @ ''alias'' @ nm @ CHR ''='' # trail"
  have cp: "substr_from ?line (length lead + 5 + length nm + 1) = Some trail"
    using substr_from_append[of "length lead + 5 + length nm + 1"
            "lead @ ''alias'' @ nm @ [CHR ''='']" trail]
    by simp
  have "parse_after_eq ?line (length lead + 5 + length nm) nm
          = Some \<lparr>name = trim_ws nm, command = []\<rparr>"
  proof (cases "\<forall>c\<in>set nm. is_ws c")
    case True
    then show ?thesis by (simp add: parse_no_name trim_ws_all)
  next
    case False
    show ?thesis unfolding parse_name[OF False] cp using assms(3)
      by (simp add: find_first_not_of_ws)
  qed
  then have "parseAliasLine (lead @ ''alias'' @ nm @ ''='' @ trail)
               = Some \<lparr>name = trim_ws nm, command = []\<rparr>"
    using parse_head[OF assms(1,2), of trail] by simp
  moreover have "\<not> (\<forall>c\<in>set nm. is_ws c) \<longrightarrow> trim_ws nm \<noteq> []"
    using trim_ws_nonempty by blast
  ultimately show ?thesis by (simp add: validateCommand_def)
qed

text \<open>The theorem at the line \<open>alias ll =\<close> with blanks around it.\<close>

theorem parseAliasLine_empty_command_witness:
  "parseAliasLine ''  alias ll = '' = Some \<lparr>name = ''ll'', command = []\<rparr>
   \<and> ''ll'' \<noteq> []
   \<and> \<not> validateCommand []"
  using parseAliasLine_empty_command[of "''  ''" "'' ll ''" "'' ''"]
  by (simp add: is_ws_def trim_ws_def)

subsection \<open>No exception leaves the parser\<close>

text \<open>Every \<open>substr\<close> of \<open>parseAliasLine\<close> starts inside its string.\<close>

lemma first_index_less: "first_index P xs = Some i \<Longrightarrow> i < length xs"
  by (auto simp: first_index_char split: if_splits intro!: takeWhile_short)

lemma find_char_less: "find_char s c pos = Some i \<Longrightarrow> pos \<le> i \<and> i < length s"
  by (auto simp: find_char_def dest!: first_index_less)

lemma extract_command_total:
  assumes "cmdStart < length commandPart"
  shows "extract_command commandPart cmdStart \<noteq> None"
  using assms
  by (auto simp: extract_command_def Let_def substr_def substr_from_def 
       split: option.splits bind_splits dest!: find_char_less)

lemma parse_after_eq_total:
  assumes "eqPos < length line"
  shows "parse_after_eq line eqPos namePart \<noteq> None"
proof -
  have cp: "substr_from line (Suc eqPos) = Some (drop (Suc eqPos) line)"
    using assms by (simp add: substr_from_def)
  have ec: "extract_command (drop (Suc eqPos) line) x = None \<Longrightarrow>
            x < length line - Suc eqPos \<Longrightarrow> False" for x
    using extract_command_total[of x "drop (Suc eqPos) line"] by simp
  show ?thesis
    unfolding parse_after_eq_def Let_def
    by (auto simp: cp substr_def find_first_not_of_def find_last_not_of_def
        split: option.splits bind_splits dest!: first_index_less dest: ec)
qed

lemma parseAliasLine_total: "parseAliasLine line \<noteq> None"
proof -
  have pa: "eqPos < length line \<Longrightarrow> \<exists>y. parse_after_eq line eqPos namePart = Some y"
    for eqPos namePart
    using parse_after_eq_total[of eqPos line namePart] by simp
  show ?thesis
    unfolding parseAliasLine_def Let_def
    by (auto simp: substr_def find_first_not_of_def
        split: option.splits bind_splits if_splits
        dest!: first_index_less find_char_less intro: pa)
qed

section \<open>Formatting\<close>

text \<open>
  C3 as stated fails for the fish dialect: a command that contains a single quote is
  still wrapped in single quotes there.
\<close>

theorem formatAlias_fish_keeps_single_quotes:
  "validateAliasName ''x'' \<and> validateCommand ''it's'' \<and> squote \<in> set ''it's''
   \<and> formatAlias FISH \<lparr>name = ''x'', command = ''it's''\<rparr>
       = ''alias x '' @ [squote] @ escapeCommand ''it's'' @ [squote]
   \<and> formatAlias FISH \<lparr>name = ''x'', command = ''it's''\<rparr>
       \<noteq> ''alias x '' @ [dquote] @ escapeCommand ''it's'' @ [dquote]"
  by (simp add: formatAlias_def validateAliasName_def validateCommand_def isalnum_def
      isalpha_def isdigit_def)

text \<open>
  C3 (as amended). For a valid alias record: under BASH and ZSH the escaped command is
  wrapped in double quotes when the command contains a single quote and in single quotes
  when it does not; under FISH it is always wrapped in single quotes, after the name and
  a space; under UNKNOWN a command without a single quote is wrapped in single quotes.
\<close>

theorem formatAlias_quoting:
  assumes "validateAliasName (name a)" and "validateCommand (command a)"
  shows "((sh = BASH \<or> sh = ZSH) \<longrightarrow>
            formatAlias sh a =
              ''alias '' @ name a @ ''=''
                @ [if squote \<in> set (command a) then dquote else squote]
                @ escapeCommand (command a)
                @ [if squote \<in> set (command a) then dquote else squote])
       \<and> formatAlias FISH a
            = ''alias '' @ name a @ '' '' @ [squote] @ escapeCommand (command a) @ [squote]
       \<and> (squote \<notin> set (command a) \<longrightarrow>
            formatAlias UNKNOWN a
              = ''alias '' @ name a @ ''='' @ [squote] @ escapeCommand (command a) @ [squote])"
  using assms by (auto simp: formatAlias_def)

text \<open>The theorem at \<open>it's\<close> under BASH and at \<open>ls\<close> under ZSH.\<close>

theorem formatAlias_quoting_witness:
  "validateAliasName ''x'' \<and> validateCommand ''it's''
   \<and> formatAlias BASH \<lparr>name = ''x'', command = ''it's''\<rparr>
       = ''alias x='' @ [dquote] @ ''it'' @ [backslash, squote] @ ''s'' @ [dquote]
   \<and> formatAlias ZSH \<lparr>name = ''x'', command = ''ls''\<rparr> = ''alias x='' @ [squote] @ ''ls'' @ [squote]"
proof -
  have v: "validateAliasName ''x''" "validateCommand ''it's''" "validateCommand ''ls''"
    by (simp_all add: validateAliasName_def validateCommand_def isalnum_def isalpha_def
        isdigit_def)
  from formatAlias_quoting[of "\<lparr>name = ''x'', command = ''it's''\<rparr>" BASH]
       formatAlias_quoting[of "\<lparr>name = ''x'', command = ''ls''\<rparr>" ZSH] v
  show ?thesis by (simp add: escapeCommand_def needs_escape_def)
qed

section \<open>Round trips through the parser\<close>

lemma valid_name_chars:
  assumes "validateAliasName nm"
  shows "nm \<noteq> [] \<and> (\<forall>c\<in>set nm. \<not> is_ws c \<and> c \<noteq> CHR ''='')"
proof -
  from assms obtain c cs where nm: "nm = c # cs" by (cases nm) (auto simp: validateAliasName_def)
  have ok: "\<not> is_ws x \<and> x \<noteq> CHR ''=''" if "isalnum x \<or> x = CHR ''_'' \<or> x = CHR ''-''" for x
    using that by (auto simp: is_ws_def isalnum_def isalpha_def isdigit_def)
  from assms nm have "isalnum c \<or> c = CHR ''_''"
    and "\<forall>x\<in>set cs. isalnum x \<or> x = CHR ''_'' \<or> x = CHR ''-''"
    by (auto simp: validateAliasName_def list_all_iff split: if_splits)
  then show ?thesis using ok nm by auto
qed

lemma set_escapeCommand: "set (escapeCommand s) \<subseteq> insert backslash (set s)"
proof (induction s)
  case Nil
  show ?case by (simp add: escapeCommand_def)
next
  case (Cons c cs)
  then show ?case unfolding escapeCommand_Cons by auto
qed

lemma trim_ws_no_ws:
  assumes "nm \<noteq> []" and "\<forall>c\<in>set nm. \<not> is_ws c"
  shows "trim_ws (CHR '' '' # nm) = nm"
proof -
  have 1: "dropWhile is_ws (CHR '' '' # nm) = nm"
    using assms by (cases nm) (auto simp: is_ws_def)
  have 2: "dropWhile is_ws (rev nm) = rev nm"
    using assms by (cases "rev nm") auto
  show ?thesis unfolding trim_ws_def 1 2 by simp
qed

lemma parse_quoted:
  assumes nm: "nm \<noteq> []" "\<forall>c\<in>set nm. \<not> is_ws c \<and> c \<noteq> CHR ''=''"
    and q: "q = squote \<or> q = dquote" and body: "q \<notin> set body"
  shows "parseAliasLine (''alias '' @ nm @ [CHR ''='', q] @ body @ [q])
           = Some \<lparr>name = nm, command = unescapeString body\<rparr>"
proof -
  let ?mid = "CHR '' '' # nm"
  let ?rest = "q # body @ [q]"
  let ?line = "[] @ ''alias'' @ ?mid @ CHR ''='' # ?rest"
  have l: "''alias '' @ nm @ [CHR ''='', q] @ body @ [q] = ?line" by simp
  have mid_eq: "CHR ''='' \<notin> set ?mid" using nm by auto
  have mid_nws: "\<not> (\<forall>c\<in>set ?mid. is_ws c)" using nm by (cases nm) auto
  have cp: "substr_from ?line (length ([]::string) + 5 + length ?mid + 1) = Some ?rest"
    using substr_from_append[of "length ([]::string) + 5 + length ?mid + 1"
            "''alias'' @ ?mid @ [CHR ''='']" ?rest]
    by simp
  have qws: "\<not> is_ws q" using q by (auto simp: is_ws_def)
  have cs: "find_first_not_of ?rest [CHR '' '', tab] = Some 0"
    unfolding find_first_not_of_ws using qws by simp
  have tw: "takeWhile (\<lambda>x. x \<noteq> q) (body @ [q]) = body"
    by (rule takeWhile_stop) (use body in auto)
  have fq: "find_char ?rest q (0 + 1) = Some (1 + length body)"
    unfolding find_char_eq by (simp add: tw)
  have ec: "extract_command ?rest 0 = Some body"
    unfolding extract_command_def using q 
    by (simp only: nth_Cons_0 if_True Let_def fq option.case) (simp add: substr_def)
  have "parse_after_eq ?line (length ([]::string) + 5 + length ?mid) ?mid
          = Some \<lparr>name = nm, command = unescapeString body\<rparr>"
    unfolding parse_name[OF mid_nws] cp
    by (simp only: bind.bind_lunit cs option.case ec trim_ws_no_ws[OF nm(1)] nm) 
       (use nm in \<open>simp add: trim_ws_no_ws\<close>)
  then show ?thesis unfolding l using parse_head[of "[]" ?mid ?rest] mid_eq by simp
qed

lemma roundtrip_posix:
  assumes "validateAliasName (name a)" and "validateCommand (command a)"
    and "sh = BASH \<or> sh = ZSH"
    and "squote \<notin> set (command a) \<or> dquote \<notin> set (command a)"
  shows "parseAliasLine (formatAlias sh a) = Some \<lparr>name = name a, command = command a\<rparr>"
proof -
  note nm = valid_name_chars[OF assms(1)]
  show ?thesis
  proof (cases "squote \<in> set (command a)")
    case True
    with assms(4) have "dquote \<notin> set (command a)" by simp
    then have "dquote \<notin> set (escapeCommand (command a))" using set_escapeCommand[of "command a"] by auto
    then have "parseAliasLine (''alias '' @ name a @ [CHR ''='', dquote] @ escapeCommand (command a) @ [dquote])
        = Some \<lparr>name = name a, command = command a\<rparr>"
      using parse_quoted[of "name a" dquote "escapeCommand (command a)"] nm
      by (simp add: unescape_escape_id)
    then show ?thesis using assms(1,2,3) True by (auto simp: formatAlias_def)
  next
    case False
    then have "squote \<notin> set (escapeCommand (command a))" using set_escapeCommand[of "command a"] by auto
    then have "parseAliasLine (''alias '' @ name a @ [CHR ''='', squote] @ escapeCommand (command a) @ [squote])
        = Some \<lparr>name = name a, command = command a\<rparr>"
      using parse_quoted[of "name a" squote "escapeCommand (command a)"] nm
      by (simp add: unescape_escape_id)
    then show ?thesis using assms(1,2,3) False by (auto simp: formatAlias_def)
  qed
qed

text \<open>
  C1. The round trip \<open>parse (format r)\<close> fails for the fish dialect: the formatted line
  has no equals sign, and the parser returns the empty record for it. (For BASH and ZSH
  the round trip holds, see \<open>roundtrip_posix\<close>.)
\<close>

theorem roundtrip_fish_fails:
  "validateAliasName ''ll'' \<and> validateCommand ''ls -la'' \<and> squote \<notin> set ''ls -la''
   \<and> formatAlias FISH \<lparr>name = ''ll'', command = ''ls -la''\<rparr>
       = ''alias ll '' @ [squote] @ ''ls -la'' @ [squote]
   \<and> parseAliasLine (formatAlias FISH \<lparr>name = ''ll'', command = ''ls -la''\<rparr>)
       = Some \<lparr>name = [], command = []\<rparr>"
  by (simp add: formatAlias_def validateAliasName_def validateCommand_def isalnum_def
      isalpha_def isdigit_def escapeCommand_def needs_escape_def parseAliasLine_def
      find_first_not_of_def find_char_def substr_def)

text \<open>So the parsed record is not the formatted one.\<close>

theorem roundtrip_fish_fails_witness:
  "parseAliasLine (formatAlias FISH \<lparr>name = ''ll'', command = ''ls -la''\<rparr>)
     \<noteq> Some \<lparr>name = ''ll'', command = ''ls -la''\<rparr>"
proof -
  from roundtrip_fish_fails
  have "parseAliasLine (formatAlias FISH \<lparr>name = ''ll'', command = ''ls -la''\<rparr>)
          = Some \<lparr>name = [], command = []\<rparr>"
    by blast
  then show ?thesis by simp
qed

section \<open>The rotation loop\<close>

lemma last3_xz: "last3 (p @ ''.xz'') = Some ''.xz''"
  by (simp add: last3_def substr_from_def)

lemma last3_Some: "3 \<le> length p \<Longrightarrow> \<exists>s. last3 p = Some s"
  by (simp add: last3_def substr_from_def)

lemma fs_remove_files:
  assumes "fs_remove e st p = Some (b, st')"
  shows "map_of (files st') = (map_of (files st))(p := None)"
  using assms
  by (auto simp: fs_remove_def fs_exists_def delete_conv split: if_splits)

lemma xz_compress_fail:
  assumes "xz_compress e st p = (False, st')"
  shows "st' = st"
  using assms by (auto simp: xz_compress_def split: option.splits if_splits)

lemma xz_compress_ok:
  assumes "xz_compress e st p = (True, st')"
  shows "\<exists>f. map_of (files st) p = Some f \<and> \<not> xz_fails e p \<and> map_of (files st) (p @ ''.xz'') = None
          \<and> map_of (files st') = (map_of (files st))(p := None, p @ ''.xz'' \<mapsto> f\<lparr>fdata := Xz (fdata f)\<rparr>)"
  using assms
  by (auto simp: xz_compress_def fs_exists_def update_conv delete_conv split: option.splits if_splits)

lemma xz_compress_succeeds:
  assumes "map_of (files st) p = Some f" "regular f" "\<not> xz_fails e p"
    "map_of (files st) (p @ ''.xz'') = None"
  shows "fst (xz_compress e st p) = True"
  using assms by (simp add: xz_compress_def fs_exists_def)

lemma xz_compress_refuses:
  assumes "xz_fails e p \<or> map_of (files st) (p @ ''.xz'') \<noteq> None"
  shows "xz_compress e st p = (False, st)"
  using assms by (auto simp: xz_compress_def fs_exists_def split: option.splits)

text \<open>The value the loop returns, when every path has at least three characters.\<close>

lemma cleanup_loop_count:
  assumes "\<forall>x\<in>set xs. 3 \<le> length (fst x)"
  shows "fst (cleanup_loop e m xs i d st)
           = Some (d + length (filter (\<lambda>p. \<not> cannot_remove e p) (drop (m - i) (map fst xs))))"
  using assms
proof (induction xs arbitrary: i d st)
  case Nil
  show ?case by simp
next
  case (Cons x xs)
  obtain p t where x: "x = (p, t)" by (cases x)
  from Cons.prems x obtain s where s: "last3 p = Some s" using last3_Some[of p] by auto
  have rest: "\<forall>x\<in>set xs. 3 \<le> length (fst x)" using Cons.prems by simp
  show ?case
  proof (cases "m \<le> i")
    case True
    then show ?thesis using Cons.IH[OF rest] x
      by (auto simp: fs_remove_def split: option.splits)
  next
    case False
    then have "m - i = Suc (m - (i + 1))" by arith
    then have dr: "drop (m - i) (map fst (x # xs)) = drop (m - (i + 1)) (map fst xs)"
      by simp
    show ?thesis unfolding dr using False Cons.IH[OF rest] x s
      by (auto split: prod.splits)
  qed
qed

lemma cleanup_loop_append:
  "cleanup_loop e m (pre @ post) i d st =
     (case cleanup_loop e m pre i d st of
        (None, s) \<Rightarrow> (None, s)
      | (Some d', s) \<Rightarrow> cleanup_loop e m post (i + length pre) d' s)"
proof (induction pre arbitrary: i d st)
  case Nil
  show ?case by simp
next
  case (Cons x pre)
  obtain p t where x: "x = (p, t)" by (cases x)
  show ?case unfolding x
    by (simp add: Cons.IH split: option.splits prod.splits)
qed

lemma cleanup_loop_keeps:
  assumes "map_of (files st) q = Some f"
    and "\<forall>k<length xs. fst (xs ! k) = q \<longrightarrow> i + k < m \<and> (i + k < 10 \<or> last3 q = Some ''.xz'')"
  shows "map_of (files (snd (cleanup_loop e m xs i d st))) q = Some f"
  using assms
proof (induction xs arbitrary: i d st)
  case Nil
  then show ?case by simp
next
  case (Cons x xs)
  obtain p t where x: "x = (p, t)" by (cases x)
  have rest: "\<forall>k<length xs. fst (xs ! k) = q \<longrightarrow> (i + 1) + k < m \<and> ((i + 1) + k < 10 \<or> last3 q = Some ''.xz'')"
  proof (intro allI impI)
    fix k assume "k < length xs" and "fst (xs ! k) = q"
    then show "(i + 1) + k < m \<and> ((i + 1) + k < 10 \<or> last3 q = Some ''.xz'')"
      using Cons.prems(2)[rule_format, of "Suc k"] by simp
  qed
  note IH = Cons.IH[OF _ rest]
  show ?case
  proof (cases "p = q")
    case True
    with Cons.prems(2)[rule_format, of 0] x
    have "i < m \<and> (i < 10 \<or> last3 p = Some ''.xz'')" by simp
    then show ?thesis unfolding x using IH[OF Cons.prems(1)] by auto
  next
    case False
    show ?thesis
    proof (cases "m \<le> i")
      case True
      show ?thesis
      proof (cases "fs_remove e st p")
        case None
        then show ?thesis unfolding x using True IH[OF Cons.prems(1)] by simp
      next
        case (Some r)
        obtain b st' where r: "r = (b, st')" by (cases r)
        have "map_of (files st') q = Some f"
          using fs_remove_files[OF Some[unfolded r]] False Cons.prems(1) by simp
        then show ?thesis unfolding x using True Some r IH[of st'] by simp
      qed
    next
      case nm: False
      show ?thesis
      proof (cases "10 \<le> i")
        case False
        then show ?thesis unfolding x using nm IH[OF Cons.prems(1)] by simp
      next
        case True
        show ?thesis
        proof (cases "last3 p")
          case None
          then show ?thesis unfolding x using nm True Cons.prems(1) by simp
        next
          case (Some suffix)
          show ?thesis
          proof (cases "suffix = ''.xz''")
            case True
            then show ?thesis unfolding x using nm \<open>10 \<le> i\<close> Some IH[OF Cons.prems(1)] by simp
          next
            case ne: False
            obtain ok st' where xc: "xz_compress e st p = (ok, st')" by (cases "xz_compress e st p")
            have keep: "map_of (files st') q = Some f"
            proof (cases ok)
              case True
              with xc have "xz_compress e st p = (True, st')" by simp
              from xz_compress_ok[OF this] Cons.prems(1) \<open>p \<noteq> q\<close>
              show ?thesis by auto
            next
              case False
              with xc have "xz_compress e st p = (False, st')" by simp
              from xz_compress_fail[OF this] Cons.prems(1) show ?thesis by simp
            qed
            then have keep2: "map_of (files (st'\<lparr>lastError := msg\<rparr>)) q = Some f" for msg by simp
            show ?thesis unfolding x using nm \<open>10 \<le> i\<close> Some ne xc IH[OF keep] IH[OF keep2]
              by simp
          qed
        qed
      qed
    qed
  qed
qed

lemma cleanup_loop_stays_absent:
  assumes "map_of (files st) q = None"
    and "\<forall>k<length xs. i + k < m \<longrightarrow> q \<noteq> fst (xs ! k) @ ''.xz''"
  shows "map_of (files (snd (cleanup_loop e m xs i d st))) q = None"
  using assms
proof (induction xs arbitrary: i d st)
  case Nil
  then show ?case by simp
next
  case (Cons x xs)
  obtain p t where x: "x = (p, t)" by (cases x)
  have rest: "\<forall>k<length xs. (i + 1) + k < m \<longrightarrow> q \<noteq> fst (xs ! k) @ ''.xz''"
  proof (intro allI impI)
    fix k assume "k < length xs" and "(i + 1) + k < m"
    then show "q \<noteq> fst (xs ! k) @ ''.xz''"
      using Cons.prems(2)[rule_format, of "Suc k"] by simp
  qed
  note IH = Cons.IH[OF _ rest]
  show ?case
  proof (cases "m \<le> i")
    case True
    show ?thesis
    proof (cases "fs_remove e st p")
      case None
      then show ?thesis unfolding x using True IH[OF Cons.prems(1)] by simp
    next
      case (Some r)
      obtain b st' where r: "r = (b, st')" by (cases r)
      have "map_of (files st') q = None"
        using fs_remove_files[OF Some[unfolded r]] Cons.prems(1) by simp
      then show ?thesis unfolding x using True Some r IH[of st'] by simp
    qed
  next
    case nm: False
    show ?thesis
    proof (cases "10 \<le> i")
      case False
      then show ?thesis unfolding x using nm IH[OF Cons.prems(1)] by simp
    next
      case True
      show ?thesis
      proof (cases "last3 p")
        case None
        then show ?thesis unfolding x using nm True Cons.prems(1) by simp
      next
        case (Some suffix)
        show ?thesis
        proof (cases "suffix = ''.xz''")
          case True
          then show ?thesis unfolding x using nm \<open>10 \<le> i\<close> Some IH[OF Cons.prems(1)] by simp
        next
          case ne: False
          obtain ok st' where xc: "xz_compress e st p = (ok, st')" by (cases "xz_compress e st p")
          have qp: "q \<noteq> p @ ''.xz''" using Cons.prems(2)[rule_format, of 0] nm x by simp
          have keep: "map_of (files st') q = None"
          proof (cases ok)
            case True
            with xc have "xz_compress e st p = (True, st')" by simp
            from xz_compress_ok[OF this] Cons.prems(1) qp
            show ?thesis by auto
          next
            case False
            with xc have "xz_compress e st p = (False, st')" by simp
            from xz_compress_fail[OF this] Cons.prems(1) show ?thesis by simp
          qed
          then have keep2: "map_of (files (st'\<lparr>lastError := msg\<rparr>)) q = None" for msg by simp
          show ?thesis unfolding x using nm \<open>10 \<le> i\<close> Some ne xc IH[OF keep] IH[OF keep2]
            by simp
        qed
      qed
    qed
  qed
qed

lemma cleanup_loop_split_at:
  assumes len: "\<forall>x\<in>set xs. 3 \<le> length (fst x)" and j: "j < length xs"
  shows "\<exists>t d0. xs ! j = (fst (xs ! j), t) \<and>
           cleanup_loop e m xs 0 0 st
             = cleanup_loop e m ((fst (xs ! j), t) # drop (Suc j) xs) j d0
                 (snd (cleanup_loop e m (take j xs) 0 0 st))"
proof -
  obtain p t where x: "xs ! j = (p, t)" by (cases "xs ! j")
  have xs: "xs = take j xs @ (p, t) # drop (Suc j) xs"
    using id_take_nth_drop[OF j] x by simp
  have "\<forall>x\<in>set (take j xs). 3 \<le> length (fst x)" using len by (meson in_set_takeD)
  from cleanup_loop_count[OF this, of e m 0 0 st]
  obtain d0 where d0: "fst (cleanup_loop e m (take j xs) 0 0 st) = Some d0" by blast
  have lj: "length (take j xs) = j" using j by simp
  have "cleanup_loop e m (take j xs @ (p, t) # drop (Suc j) xs) 0 0 st
          = cleanup_loop e m ((p, t) # drop (Suc j) xs) j d0
              (snd (cleanup_loop e m (take j xs) 0 0 st))"
    unfolding cleanup_loop_append using d0 lj
    by (cases "cleanup_loop e m (take j xs) 0 0 st") simp
  with xs x show ?thesis by auto
qed

lemma distinct_fst_nth:
  assumes "distinct (map fst xs)" "j < length xs" "k < length xs" "fst (xs ! k) = fst (xs ! j)"
  shows "k = j"
  using assms nth_eq_iff_index_eq[of "map fst xs" k j] by simp

lemma not_in_take:
  assumes "distinct (map fst xs)" "j < length xs"
  shows "\<forall>k<length (take j xs). fst (take j xs ! k) \<noteq> fst (xs ! j)"
proof (intro allI impI)
  fix k assume "k < length (take j xs)"
  then have "k < j" "k < length xs" using assms(2) by simp_all
  then show "fst (take j xs ! k) \<noteq> fst (xs ! j)"
    using assms distinct_fst_nth[of xs j k] by auto
qed

lemma not_in_drop:
  assumes "distinct (map fst xs)" "j < length xs"
  shows "\<forall>k<length (drop (Suc j) xs). fst (drop (Suc j) xs ! k) \<noteq> fst (xs ! j)"
proof (intro allI impI)
  fix k assume "k < length (drop (Suc j) xs)"
  then have "Suc j + k < length xs" by simp
  then show "fst (drop (Suc j) xs ! k) \<noteq> fst (xs ! j)"
    using assms distinct_fst_nth[of xs j "Suc j + k"] by auto
qed

text \<open>An entry among the ten newest, or one that is compressed already, is not touched.\<close>

lemma entry_untouched:
  assumes dist: "distinct (map fst xs)" and j: "j < length xs"
    and f: "map_of (files st) (fst (xs ! j)) = Some f"
    and jm: "j < m" and c: "j < 10 \<or> last3 (fst (xs ! j)) = Some ''.xz''"
  shows "map_of (files (snd (cleanup_loop e m xs 0 0 st))) (fst (xs ! j)) = Some f"
proof (rule cleanup_loop_keeps[OF f])
  show "\<forall>k<length xs. fst (xs ! k) = fst (xs ! j) \<longrightarrow>
          0 + k < m \<and> (0 + k < 10 \<or> last3 (fst (xs ! j)) = Some ''.xz'')"
    using distinct_fst_nth[OF dist j] jm c by auto
qed

text \<open>An entry beyond the cap that cannot be removed stays; one that can be removed is gone.\<close>

lemma entry_removed:
  assumes len: "\<forall>x\<in>set xs. 3 \<le> length (fst x)"
    and dist: "distinct (map fst xs)" and j: "j < length xs"
    and f: "map_of (files st) (fst (xs ! j)) = Some f"
    and jm: "m \<le> j"
  shows "map_of (files (snd (cleanup_loop e m xs 0 0 st))) (fst (xs ! j))
           = (if cannot_remove e (fst (xs ! j)) then Some f else None)"
proof -
  let ?p = "fst (xs ! j)"
  let ?post = "drop (Suc j) xs"
  define S0 where "S0 = snd (cleanup_loop e m (take j xs) 0 0 st)"
  from cleanup_loop_split_at[OF len j, of e m st] obtain t d0 where
    run: "cleanup_loop e m xs 0 0 st = cleanup_loop e m ((?p, t) # ?post) j d0 S0"
    unfolding S0_def by blast
  have S0p: "map_of (files S0) ?p = Some f"
    unfolding S0_def using not_in_take[OF dist j] by (intro cleanup_loop_keeps[OF f]) auto
  show ?thesis
  proof (cases "cannot_remove e ?p")
    case True
    have "map_of (files (snd (cleanup_loop e m ?post (j + 1) d0 S0))) ?p = Some f"
      using not_in_drop[OF dist j] by (intro cleanup_loop_keeps[OF S0p]) auto
    then show ?thesis unfolding run using True jm by (simp add: fs_remove_def)
  next
    case False
    define S1 where "S1 = S0\<lparr>files := AList.delete ?p (files S0)\<rparr>"
    have rm: "fs_remove e S0 ?p = Some (True, S1)"
      using False S0p by (simp add: fs_remove_def fs_exists_def S1_def)
    have "map_of (files S1) ?p = None" by (simp add: S1_def delete_conv)
    then have "map_of (files (snd (cleanup_loop e m ?post (j + 1) (d0 + 1) S1))) ?p = None"
      using jm by (intro cleanup_loop_stays_absent) auto
    then show ?thesis unfolding run using False jm rm by simp
  qed
qed

text \<open>
  An uncompressed entry between the tenth and the cap: compressed in place when \<open>xz\<close>
  succeeds, left as it is when \<open>xz\<close> refuses.
\<close>

lemma entry_compressed:
  assumes len: "\<forall>x\<in>set xs. 3 \<le> length (fst x)"
    and dist: "distinct (map fst xs)" and j: "j < length xs"
    and pres: "\<forall>x\<in>set xs. map_of (files st) (fst x) \<noteq> None"
    and f: "map_of (files st) (fst (xs ! j)) = Some f" and reg: "regular f"
    and jm: "10 \<le> j" "j < m" and raw: "last3 (fst (xs ! j)) \<noteq> Some ''.xz''"
    and ok: "\<not> xz_fails e (fst (xs ! j))" "map_of (files st) (fst (xs ! j) @ ''.xz'') = None"
  shows "map_of (files (snd (cleanup_loop e m xs 0 0 st))) (fst (xs ! j)) = None
       \<and> map_of (files (snd (cleanup_loop e m xs 0 0 st))) (fst (xs ! j) @ ''.xz'')
           = Some (f\<lparr>fdata := Xz (fdata f)\<rparr>)"
proof -
  let ?p = "fst (xs ! j)"
  let ?post = "drop (Suc j) xs"
  define S0 where "S0 = snd (cleanup_loop e m (take j xs) 0 0 st)"
  from cleanup_loop_split_at[OF len j, of e m st] obtain t d0 where
    run: "cleanup_loop e m xs 0 0 st = cleanup_loop e m ((?p, t) # ?post) j d0 S0"
    unfolding S0_def by blast
  have S0p: "map_of (files S0) ?p = Some f"
    unfolding S0_def using not_in_take[OF dist j] by (intro cleanup_loop_keeps[OF f]) auto
  have S0x: "map_of (files S0) (?p @ ''.xz'') = None"
    unfolding S0_def using not_in_take[OF dist j] by (intro cleanup_loop_stays_absent[OF ok(2)]) auto
  from len j obtain s where s: "last3 ?p = Some s" using last3_Some[of ?p] by auto
  with raw have sne: "s \<noteq> ''.xz''" by simp
  obtain b S1 where xc: "xz_compress e S0 ?p = (b, S1)" by (cases "xz_compress e S0 ?p")
  with xz_compress_succeeds[OF S0p reg ok(1) S0x] have xc: "xz_compress e S0 ?p = (True, S1)" by simp
  from xz_compress_ok[OF xc] S0p
  have S1: "map_of (files S1) = (map_of (files S0))(?p := None, ?p @ ''.xz'' \<mapsto> f\<lparr>fdata := Xz (fdata f)\<rparr>)"
    by auto
  have pne: "?p \<noteq> ?p @ ''.xz''" by simp
  have S1p: "map_of (files S1) ?p = None" unfolding S1 using pne by simp
  have S1x: "map_of (files S1) (?p @ ''.xz'') = Some (f\<lparr>fdata := Xz (fdata f)\<rparr>)" unfolding S1 by simp
  have notxz: "?p \<noteq> r @ ''.xz''" for r using raw last3_xz[of r] by auto
  have fin_p: "map_of (files (snd (cleanup_loop e m ?post (j + 1) d0 S1))) ?p = None"
    using notxz by (intro cleanup_loop_stays_absent[OF S1p]) auto
  have "?p @ ''.xz'' \<notin> fst ` set xs" using pres ok(2) by auto
  then have "\<forall>k<length ?post. fst (?post ! k) \<noteq> ?p @ ''.xz''"
    by (metis image_eqI in_set_dropD nth_mem)
  then have fin_x: "map_of (files (snd (cleanup_loop e m ?post (j + 1) d0 S1))) (?p @ ''.xz'')
                     = Some (f\<lparr>fdata := Xz (fdata f)\<rparr>)"
    by (intro cleanup_loop_keeps[OF S1x]) auto
  show ?thesis unfolding run using jm s sne xc fin_p fin_x by simp
qed

lemma entry_not_compressed:
  assumes len: "\<forall>x\<in>set xs. 3 \<le> length (fst x)"
    and dist: "distinct (map fst xs)" and j: "j < length xs"
    and f: "map_of (files st) (fst (xs ! j)) = Some f"
    and jm: "10 \<le> j" "j < m" and raw: "last3 (fst (xs ! j)) \<noteq> Some ''.xz''"
    and no: "xz_fails e (fst (xs ! j)) \<or> map_of (files st) (fst (xs ! j) @ ''.xz'') \<noteq> None"
  shows "map_of (files (snd (cleanup_loop e m xs 0 0 st))) (fst (xs ! j)) = Some f"
proof -
  let ?p = "fst (xs ! j)"
  let ?post = "drop (Suc j) xs"
  define S0 where "S0 = snd (cleanup_loop e m (take j xs) 0 0 st)"
  from cleanup_loop_split_at[OF len j, of e m st] obtain t d0 where
    run: "cleanup_loop e m xs 0 0 st = cleanup_loop e m ((?p, t) # ?post) j d0 S0"
    unfolding S0_def by blast
  have S0p: "map_of (files S0) ?p = Some f"
    unfolding S0_def using not_in_take[OF dist j] by (intro cleanup_loop_keeps[OF f]) auto
  have S0x: "xz_fails e ?p \<or> map_of (files S0) (?p @ ''.xz'') \<noteq> None"
  proof (cases "xz_fails e ?p")
    case True
    then show ?thesis by simp
  next
    case False
    with no obtain g where g: "map_of (files st) (?p @ ''.xz'') = Some g" by auto
    have "map_of (files S0) (?p @ ''.xz'') = Some g"
      unfolding S0_def using jm j by (intro cleanup_loop_keeps[OF g]) (auto simp: last3_xz)
    then show ?thesis by simp
  qed
  from len j obtain s where s: "last3 ?p = Some s" using last3_Some[of ?p] by auto
  with raw have sne: "s \<noteq> ''.xz''" by simp
  have xc: "xz_compress e S0 ?p = (False, S0)" by (rule xz_compress_refuses[OF S0x])
  have "map_of (files (S0\<lparr>lastError := ''Failed to compress backup: '' @ ?p\<rparr>)) ?p = Some f"
    using S0p by simp
  then have "map_of (files (snd (cleanup_loop e m ?post (j + 1) d0
               (S0\<lparr>lastError := ''Failed to compress backup: '' @ ?p\<rparr>)))) ?p = Some f"
    using not_in_drop[OF dist j] by (intro cleanup_loop_keeps) auto
  then show ?thesis unfolding run using jm s sne xc by simp
qed

section \<open>Listing, timing and sorting the backups\<close>

lemma find_str_length: "find_str s pat \<noteq> None \<Longrightarrow> length pat \<le> length s"
proof (induction s)
  case Nil
  then show ?case by (simp split: if_splits)
next
  case (Cons c cs)
  show ?case
  proof (cases "take (length pat) (c # cs) = pat")
    case True
    then have "length pat = length (take (length pat) (c # cs))" by simp
    then show ?thesis by simp
  next
    case False
    with Cons show ?thesis by auto
  qed
qed

lemma length_filename: "length (filename p) \<le> length p"
  unfolding filename_def using length_takeWhile_le[of _ "rev p"] by simp

lemma getBackupDirectory_distinct:
  assumes "getBackupDirectory e orig st = (dir, st1)" and "distinct (map fst (files st))"
  shows "distinct (map fst (files st1))"
  using assms
  by (auto simp: getBackupDirectory_def Let_def distinct_update split: option.splits bool.splits if_splits)

lemma getBackupDirectory_keeps:
  assumes "getBackupDirectory e orig st = (dir, st1)" and "map_of (files st) p = Some F"
  shows "map_of (files st1) p = Some F"
  using assms
  by (auto simp: getBackupDirectory_def Let_def exists_or_throw_def fs_exists_def update_conv
           split: option.splits bool.splits if_splits)

lemma listBackups_keeps:
  assumes lb: "listBackups e orig st = (backups, st1)" and F: "map_of (files st) p = Some F"
  shows "map_of (files st1) p = Some F"
proof -
  obtain dir s1 where gd: "getBackupDirectory e orig st = (dir, s1)"
    by (cases "getBackupDirectory e orig st")
  from lb gd have "files st1 = files s1"
    by (auto simp: listBackups_def split: option.splits)
  with getBackupDirectory_keeps[OF gd F] show ?thesis by simp
qed

lemma listBackups_facts:
  assumes lb: "listBackups e orig st = (backups, st1)"
  shows "\<forall>p\<in>set backups. 4 \<le> length p \<and> (\<exists>f. (p, f) \<in> set (files st1) \<and> regular f)"
    and "distinct (map fst (files st)) \<Longrightarrow> distinct (map fst (files st1)) \<and> distinct backups"
proof -
  obtain dir s1 where gd: "getBackupDirectory e orig st = (dir, s1)"
    by (cases "getBackupDirectory e orig st")
  show "\<forall>p\<in>set backups. 4 \<le> length p \<and> (\<exists>f. (p, f) \<in> set (files st1) \<and> regular f)"
  proof
    fix p assume p: "p \<in> set backups"
    show "4 \<le> length p \<and> (\<exists>f. (p, f) \<in> set (files st1) \<and> regular f)"
    proof (cases "directory_iterator e s1 dir")
      case None
      with lb gd p show ?thesis by (simp add: listBackups_def)
    next
      case (Some entries)
      with lb gd have st1: "st1 = s1"
        and b: "backups = map fst (filter (\<lambda>(p, f). regular f \<and>
                    find_str (filename p) (getBackupBaseName orig) \<noteq> None) entries)"
        by (simp_all add: listBackups_def)
      from p b obtain f where pf: "(p, f) \<in> set entries" "regular f"
        "find_str (filename p) (getBackupBaseName orig) \<noteq> None" by auto
      from Some pf(1) have "(p, f) \<in> set (files s1)"
        by (auto simp: directory_iterator_def split: if_splits)
      moreover have "4 \<le> length p"
        using find_str_length[OF pf(3)] length_filename[of p]
        by (simp add: getBackupBaseName_def)
      ultimately show ?thesis using pf(2) st1 by blast
    qed
  qed
  show "distinct (map fst (files st1)) \<and> distinct backups" if wf: "distinct (map fst (files st))"
  proof (cases "directory_iterator e s1 dir")
    case None
    with lb gd getBackupDirectory_distinct[OF gd wf] show ?thesis by (auto simp: listBackups_def)
  next
    case (Some entries)
    with lb gd have st1: "st1 = s1"
      and b: "backups = map fst (filter (\<lambda>(p, f). regular f \<and>
                  find_str (filename p) (getBackupBaseName orig) \<noteq> None) entries)"
      by (simp_all add: listBackups_def)
    have d1: "distinct (map fst (files s1))" by (rule getBackupDirectory_distinct[OF gd wf])
    from Some have "entries = filter (\<lambda>(p, f). is_child dir p) (files s1)"
      by (auto simp: directory_iterator_def split: if_splits)
    then have "distinct (map fst entries)" using d1 by (simp add: distinct_map_filter)
    then have "distinct backups" unfolding b by (simp add: distinct_map_filter)
    with d1 st1 show ?thesis by simp
  qed
qed

lemma with_times_all:
  assumes "\<forall>p\<in>set bs. \<exists>t. last_write_time e st p = Some t"
  shows "map fst (with_times e st bs) = bs"
  using assms by (induction bs) auto

lemma with_times_set:
  "x \<in> set (with_times e st bs) \<Longrightarrow> fst x \<in> set bs \<and> last_write_time e st (fst x) = Some (snd x)"
  by (induction bs) (auto split: option.splits)

lemma with_times_distinct:
  "distinct bs \<Longrightarrow> distinct (map fst (with_times e st bs))"
proof (induction bs)
  case Nil
  show ?case by simp
next
  case (Cons b bs)
  have "b \<notin> fst ` set (with_times e st bs)"
    using Cons.prems with_times_set[of _ e st bs] by auto
  with Cons show ?case by (auto split: option.splits)
qed

lemma sorts_newest_first_facts:
  assumes "sorts_newest_first srt"
  shows "set (srt xs) = set xs" and "length (srt xs) = length xs"
    and "distinct (map fst (srt xs)) = distinct (map fst xs)"
    and "sorted_wrt (\<lambda>a b. snd a \<ge> snd b) (srt xs)"
proof -
  from assms have m: "mset (srt xs) = mset xs" and s: "sorted_wrt (\<lambda>a b. snd a \<ge> snd b) (srt xs)"
    by (simp_all add: sorts_newest_first_def)
  show "set (srt xs) = set xs" using m by (rule mset_eq_setD)
  show "length (srt xs) = length xs" using m by (rule mset_eq_length)
  have "mset (map fst (srt xs)) = mset (map fst xs)" using m by (metis mset_map)
  then show "distinct (map fst (srt xs)) = distinct (map fst xs)"
    by (rule mset_eq_imp_distinct_iff)
  show "sorted_wrt (\<lambda>a b. snd a \<ge> snd b) (srt xs)" by (rule s)
qed

section \<open>Rotation\<close>

lemma rotation_general:
  assumes wf: "distinct (map fst (files st))"
    and srt: "sorts_newest_first (sort_newest e)"
    and lb: "listBackups e orig st = (backups, st1)"
    and stat: "\<forall>p\<in>set backups. \<not> cannot_stat e p"
    and ps: "ps = map fst (sort_newest e (with_times e st1 backups))"
    and m: "m = nat (if mb \<le> 0 then 20 else mb)"
    and res: "cleanupAndCompressOldBackups e orig mb st = (r, st')"
  shows "length ps = length backups \<and> set ps = set backups \<and> distinct ps"
    and "\<forall>i j. i \<le> j \<and> j < length ps \<longrightarrow>
           (\<exists>f g. map_of (files st1) (ps ! i) = Some f \<and> map_of (files st1) (ps ! j) = Some g
                  \<and> mtime g \<le> mtime f)"
    and "r = Some (length (filter (\<lambda>p. \<not> cannot_remove e p) (drop m ps)))"
    and "\<forall>i. i < length ps \<and> i < 10 \<and> i < m \<longrightarrow>
           map_of (files st') (ps ! i) = map_of (files st1) (ps ! i)"
    and "\<forall>i. i < length ps \<and> 10 \<le> i \<and> i < m \<longrightarrow>
           (\<exists>f. map_of (files st1) (ps ! i) = Some f \<and>
              (if last3 (ps ! i) = Some ''.xz'' then map_of (files st') (ps ! i) = Some f
               else if \<not> xz_fails e (ps ! i) \<and> map_of (files st1) (ps ! i @ ''.xz'') = None
               then map_of (files st') (ps ! i) = None \<and>
                    map_of (files st') (ps ! i @ ''.xz'') = Some (f\<lparr>fdata := Xz (fdata f)\<rparr>)
               else map_of (files st') (ps ! i) = Some f))"
    and "\<forall>i. i < length ps \<and> m \<le> i \<longrightarrow>
           map_of (files st') (ps ! i)
             = (if cannot_remove e (ps ! i) then map_of (files st1) (ps ! i) else None)"
proof -
  define bt where "bt = with_times e st1 backups"
  define xs where "xs = sort_newest e bt"
  note lbf = listBackups_facts[OF lb]
  have d1: "distinct (map fst (files st1))" and db: "distinct backups" using lbf(2)[OF wf] by simp_all
  have ex: "\<exists>f. map_of (files st1) p = Some f \<and> regular f" if "p \<in> set backups" for p
    using lbf(1) that d1 by (metis map_of_eq_Some_iff)
  have lw: "\<exists>t. last_write_time e st1 p = Some t" if "p \<in> set backups" for p
    using ex[OF that] stat that by (auto simp: last_write_time_def)
  have fbt: "map fst bt = backups" unfolding bt_def using lw by (intro with_times_all) blast
  note sf = sorts_newest_first_facts[OF srt, of bt, folded xs_def]
  have pxs: "ps = map fst xs" by (simp add: ps xs_def bt_def)
  have set_ps: "set ps = set backups" unfolding pxs using sf(1) fbt by (metis set_map)
  have len_ps: "length ps = length backups" unfolding pxs using sf(2) fbt by (metis length_map)
  have dist: "distinct (map fst xs)" using sf(3) fbt db by simp
  show "length ps = length backups \<and> set ps = set backups \<and> distinct ps"
    using set_ps len_ps dist pxs by simp
  have lenx: "length xs = length ps" by (simp add: pxs)
  have nth_ps: "ps ! i = fst (xs ! i)" if "i < length ps" for i using that by (simp add: pxs)
  have inb: "ps ! i \<in> set backups" if "i < length ps" for i using that set_ps nth_mem by blast
  have len3: "\<forall>x\<in>set xs. 3 \<le> length (fst x)"
  proof
    fix x assume "x \<in> set xs"
    then have "fst x \<in> set backups" using set_ps pxs by auto
    with lbf(1) show "3 \<le> length (fst x)" by fastforce
  qed
  have pres: "\<forall>x\<in>set xs. map_of (files st1) (fst x) \<noteq> None"
  proof
    fix x assume "x \<in> set xs"
    then have "fst x \<in> set backups" using set_ps pxs by auto
    with ex show "map_of (files st1) (fst x) \<noteq> None" by fastforce
  qed
  have tm: "map_of (files st1) (ps ! i) = Some f \<Longrightarrow> snd (xs ! i) = mtime f" if "i < length ps" for i f
  proof -
    assume f: "map_of (files st1) (ps ! i) = Some f"
    have "xs ! i \<in> set bt" using that sf(1) lenx by (metis nth_mem)
    from with_times_set[OF this[unfolded bt_def]] nth_ps[OF that] f
    show "snd (xs ! i) = mtime f" by (auto simp: last_write_time_def split: if_splits)
  qed
  show "\<forall>i j. i \<le> j \<and> j < length ps \<longrightarrow>
           (\<exists>f g. map_of (files st1) (ps ! i) = Some f \<and> map_of (files st1) (ps ! j) = Some g
                  \<and> mtime g \<le> mtime f)"
  proof (intro allI impI)
    fix i j assume ij: "i \<le> j \<and> j < length ps"
    then have i: "i < length ps" and j: "j < length ps" by simp_all
    from ex[OF inb[OF i]] obtain f where f: "map_of (files st1) (ps ! i) = Some f" by blast
    from ex[OF inb[OF j]] obtain g where g: "map_of (files st1) (ps ! j) = Some g" by blast
    have "snd (xs ! j) \<le> snd (xs ! i)"
    proof (cases "i = j")
      case True
      then show ?thesis by simp
    next
      case False
      with ij have "i < j" by simp
      with sf(4) j lenx show ?thesis by (simp add: sorted_wrt_iff_nth_less)
    qed
    with tm[OF i f] tm[OF j g] f g
    show "\<exists>f g. map_of (files st1) (ps ! i) = Some f \<and> map_of (files st1) (ps ! j) = Some g
                  \<and> mtime g \<le> mtime f" by auto
  qed
  have run: "cleanup_loop e m xs 0 0 st1 = (r, st')"
    using res lb unfolding cleanupAndCompressOldBackups_def m xs_def bt_def
    by (simp add: Let_def)
  have st': "st' = snd (cleanup_loop e m xs 0 0 st1)" using run by simp
  show "r = Some (length (filter (\<lambda>p. \<not> cannot_remove e p) (drop m ps)))"
    using cleanup_loop_count[OF len3, of e m 0 0 st1] run by (simp add: pxs)
  show "\<forall>i. i < length ps \<and> i < 10 \<and> i < m \<longrightarrow>
           map_of (files st') (ps ! i) = map_of (files st1) (ps ! i)"
  proof (intro allI impI)
    fix i assume a: "i < length ps \<and> i < 10 \<and> i < m"
    then have i: "i < length ps" by simp
    from ex[OF inb[OF i]] obtain f where f: "map_of (files st1) (fst (xs ! i)) = Some f"
      using nth_ps[OF i] by auto
    from entry_untouched[OF dist _ f, of m e] a lenx
    show "map_of (files st') (ps ! i) = map_of (files st1) (ps ! i)"
      unfolding st' nth_ps[OF i] f by simp
  qed
  show "\<forall>i. i < length ps \<and> 10 \<le> i \<and> i < m \<longrightarrow>
           (\<exists>f. map_of (files st1) (ps ! i) = Some f \<and>
              (if last3 (ps ! i) = Some ''.xz'' then map_of (files st') (ps ! i) = Some f
               else if \<not> xz_fails e (ps ! i) \<and> map_of (files st1) (ps ! i @ ''.xz'') = None
               then map_of (files st') (ps ! i) = None \<and>
                    map_of (files st') (ps ! i @ ''.xz'') = Some (f\<lparr>fdata := Xz (fdata f)\<rparr>)
               else map_of (files st') (ps ! i) = Some f))"
  proof (intro allI impI)
    fix i assume a: "i < length ps \<and> 10 \<le> i \<and> i < m"
    then have i: "i < length ps" and ix: "i < length xs" and i10: "10 \<le> i" and im: "i < m"
      using lenx by simp_all
    from ex[OF inb[OF i]] obtain f where f: "map_of (files st1) (fst (xs ! i)) = Some f"
      and reg: "regular f" using nth_ps[OF i] by auto
    let ?p = "fst (xs ! i)"
    have "if last3 ?p = Some ''.xz'' then map_of (files st') ?p = Some f
          else if \<not> xz_fails e ?p \<and> map_of (files st1) (?p @ ''.xz'') = None
          then map_of (files st') ?p = None \<and>
               map_of (files st') (?p @ ''.xz'') = Some (f\<lparr>fdata := Xz (fdata f)\<rparr>)
          else map_of (files st') ?p = Some f"
    proof (cases "last3 ?p = Some ''.xz''")
      case True
      with entry_untouched[OF dist ix f im, of e] show ?thesis unfolding st' by simp
    next
      case raw: False
      show ?thesis
      proof (cases "\<not> xz_fails e ?p \<and> map_of (files st1) (?p @ ''.xz'') = None")
        case True
        with entry_compressed[OF len3 dist ix pres f reg i10 im raw, of e] raw
        show ?thesis unfolding st' by simp
      next
        case False
        then have "xz_fails e ?p \<or> map_of (files st1) (?p @ ''.xz'') \<noteq> None" by simp
        from entry_not_compressed[OF len3 dist ix f i10 im raw this] raw False
        show ?thesis unfolding st' by auto
      qed
    qed
    with f show "\<exists>f. map_of (files st1) (ps ! i) = Some f \<and>
              (if last3 (ps ! i) = Some ''.xz'' then map_of (files st') (ps ! i) = Some f
               else if \<not> xz_fails e (ps ! i) \<and> map_of (files st1) (ps ! i @ ''.xz'') = None
               then map_of (files st') (ps ! i) = None \<and>
                    map_of (files st') (ps ! i @ ''.xz'') = Some (f\<lparr>fdata := Xz (fdata f)\<rparr>)
               else map_of (files st') (ps ! i) = Some f)"
      unfolding nth_ps[OF i] by blast
  qed
  show "\<forall>i. i < length ps \<and> m \<le> i \<longrightarrow>
           map_of (files st') (ps ! i)
             = (if cannot_remove e (ps ! i) then map_of (files st1) (ps ! i) else None)"
  proof (intro allI impI)
    fix i assume a: "i < length ps \<and> m \<le> i"
    then have i: "i < length ps" and ix: "i < length xs" and im: "m \<le> i" using lenx by simp_all
    from ex[OF inb[OF i]] obtain f where f: "map_of (files st1) (fst (xs ! i)) = Some f"
      using nth_ps[OF i] by auto
    from entry_removed[OF len3 dist ix f im, of e]
    show "map_of (files st') (ps ! i)
             = (if cannot_remove e (ps ! i) then map_of (files st1) (ps ! i) else None)"
      unfolding st' nth_ps[OF i] f by simp
  qed
qed

subsection \<open>The newest backup stays\<close>

text \<open>
  A backup that is newer than every other backup whose time can be read is at position
  0 of the sorted list, or not in it, and the rotation leaves it as it is.
\<close>

lemma rotation_keeps_newest:
  assumes wf: "distinct (map fst (files st))"
    and srt: "sorts_newest_first (sort_newest e)"
    and lb: "listBackups e orig st = (backups, st1)"
    and F: "map_of (files st1) bp = Some F"
    and newer: "\<forall>p\<in>set backups. p \<noteq> bp \<longrightarrow>
                  (\<forall>t. last_write_time e st1 p = Some t \<longrightarrow> t < mtime F)"
  shows "map_of (files (snd (cleanupAndCompressOldBackups e orig 20 st))) bp = Some F"
proof -
  define bt where "bt = with_times e st1 backups"
  define xs where "xs = sort_newest e bt"
  note sf = sorts_newest_first_facts[OF srt, of bt, folded xs_def]
  have db: "distinct backups" using listBackups_facts(2)[OF lb wf] by simp
  have dist: "distinct (map fst xs)"
    using sf(3) with_times_distinct[OF db, of e st1] by (simp add: bt_def)
  have first: "k = 0" if k: "k < length xs" and kb: "fst (xs ! k) = bp" for k
  proof (rule ccontr)
    assume "k \<noteq> 0"
    then have pos: "0 < k" by simp
    have l0: "0 < length xs" using k by (cases xs) auto
    have ne: "fst (xs ! 0) \<noteq> bp"
      using distinct_fst_nth[OF dist k l0] kb pos by auto
    have "xs ! 0 \<in> set bt" using sf(1) l0 by (metis nth_mem)
    from with_times_set[OF this[unfolded bt_def]] ne newer
    have lt: "snd (xs ! 0) < mtime F" by blast
    have "xs ! k \<in> set bt" using sf(1) k by (metis nth_mem)
    from with_times_set[OF this[unfolded bt_def]] kb F
    have eq: "snd (xs ! k) = mtime F" by (auto simp: last_write_time_def split: if_splits)
    have "snd (xs ! k) \<le> snd (xs ! 0)"
      using sf(4) pos k by (simp add: sorted_wrt_iff_nth_less)
    with lt eq show False by simp
  qed
  have "map_of (files (snd (cleanup_loop e 20 xs 0 0 st1))) bp = Some F"
  proof (rule cleanup_loop_keeps[OF F])
    show "\<forall>k<length xs. fst (xs ! k) = bp \<longrightarrow>
            0 + k < 20 \<and> (0 + k < 10 \<or> last3 bp = Some ''.xz'')"
    proof (intro allI impI)
      fix k assume "k < length xs" and "fst (xs ! k) = bp"
      then have "k = 0" by (rule first)
      then show "0 + k < 20 \<and> (0 + k < 10 \<or> last3 bp = Some ''.xz'')" by simp
    qed
  qed
  then show ?thesis
    unfolding cleanupAndCompressOldBackups_def lb xs_def bt_def by (simp add: Let_def)
qed

subsection \<open>A directory with 25 backups\<close>

lemma sample_sort_contract: "sorts_newest_first sample_sort"
  unfolding sorts_newest_first_def sample_sort_def
proof (intro allI conjI)
  fix xs :: "(path \<times> int) list"
  show "mset (rev (sort_key snd xs)) = mset xs" by simp
  have "sorted (map snd (sort_key snd xs))" by (rule sorted_sort_key)
  then have "sorted_wrt (\<lambda>a b. snd a \<le> snd b) (sort_key snd xs)" by (simp add: sorted_map)
  then show "sorted_wrt (\<lambda>a b. snd b \<le> snd a) (rev (sort_key snd xs))"
    by (simp add: sorted_wrt_rev)
qed

lemma wf25: "distinct (map fst (files world25))"
  by (simp add: world25_def)

lemma lb25: "listBackups env25 ''/d/f'' world25 = (backups25, world25)"
  by (simp add: listBackups_def getBackupDirectory_def getBackupBaseName_def env25_def
      parent_path_def filename_def directory_iterator_def is_child_def path_join_def
      world25_def backups25_def)

lemma ps25: "map fst (sort_newest env25 (with_times env25 world25 backups25)) = sorted25"
  by (simp add: env25_def sample_sort_def last_write_time_def world25_def backups25_def sorted25_def)

text \<open>
  C2 (as amended). With 25 backups whose times can all be read and a cap of 20, let
  \<open>ps\<close> be the backups in the newest-first order the routine sorts them into. The
  entries at positions 0 to 9 are left as they are. An entry at a position from 10 to 19
  that is compressed already is left as it is; one that is not is handed to \<open>xz\<close> and
  is replaced by its compressed \<open>.xz\<close> file when \<open>xz\<close> succeeds, and stays as it is
  when \<open>xz\<close> fails. The entries at positions 20 to 24 are removed, except those whose
  removal throws, which stay. The result is 5 minus the number of removals that threw.
\<close>

theorem rotation_of_25:
  assumes wf: "distinct (map fst (files st))"
    and srt: "sorts_newest_first (sort_newest e)"
    and lb: "listBackups e orig st = (backups, st1)"
    and n: "length backups = 25"
    and stat: "\<forall>p\<in>set backups. \<not> cannot_stat e p"
    and ps: "ps = map fst (sort_newest e (with_times e st1 backups))"
    and res: "cleanupAndCompressOldBackups e orig 20 st = (r, st')"
  shows "length ps = 25 \<and> set ps = set backups \<and> distinct ps
       \<and> (\<forall>i j. i \<le> j \<and> j < 25 \<longrightarrow>
            (\<exists>f g. map_of (files st1) (ps ! i) = Some f \<and> map_of (files st1) (ps ! j) = Some g
                   \<and> mtime g \<le> mtime f))
       \<and> (\<forall>i. i < 10 \<longrightarrow> map_of (files st') (ps ! i) = map_of (files st1) (ps ! i))
       \<and> (\<forall>i. 10 \<le> i \<and> i < 20 \<longrightarrow>
            (\<exists>f. map_of (files st1) (ps ! i) = Some f \<and>
               (if last3 (ps ! i) = Some ''.xz'' then map_of (files st') (ps ! i) = Some f
                else if \<not> xz_fails e (ps ! i) \<and> map_of (files st1) (ps ! i @ ''.xz'') = None
                then map_of (files st') (ps ! i) = None \<and>
                     map_of (files st') (ps ! i @ ''.xz'') = Some (f\<lparr>fdata := Xz (fdata f)\<rparr>)
                else map_of (files st') (ps ! i) = Some f)))
       \<and> (\<forall>i. 20 \<le> i \<and> i < 25 \<longrightarrow>
            map_of (files st') (ps ! i)
              = (if cannot_remove e (ps ! i) then map_of (files st1) (ps ! i) else None))
       \<and> r = Some (5 - length (filter (cannot_remove e) (drop 20 ps)))"
proof -
  have m: "(20::nat) = nat (if (20::int) \<le> 0 then 20 else 20)" by simp
  note g = rotation_general[OF wf srt lb stat ps m res]
  have len: "length ps = 25" using g(1) n by simp
  have "length (filter (cannot_remove e) (drop 20 ps))
          + length (filter (\<lambda>p. \<not> cannot_remove e p) (drop 20 ps)) = length (drop 20 ps)"
    by (rule sum_length_filter_compl)
  then have cnt: "length (filter (\<lambda>p. \<not> cannot_remove e p) (drop 20 ps))
                    = 5 - length (filter (cannot_remove e) (drop 20 ps))"
    using len by simp
  show ?thesis using g(1) g(2) g(3) g(4) g(5) g(6) unfolding len cnt by simp
qed

text \<open>The theorem in the sample directory, where one removal throws.\<close>

theorem rotation_of_25_witness:
  "fst (cleanupAndCompressOldBackups env25 ''/d/f'' 20 world25) = Some 4
   \<and> map_of (files (snd (cleanupAndCompressOldBackups env25 ''/d/f'' 20 world25))) ''/d/f.bak00''
       = Some \<lparr>regular = True, mtime = 100, fdata = Raw ''old''\<rparr>
   \<and> map_of (files (snd (cleanupAndCompressOldBackups env25 ''/d/f'' 20 world25))) ''/d/f.bak10'' = None
   \<and> map_of (files (snd (cleanupAndCompressOldBackups env25 ''/d/f'' 20 world25))) ''/d/f.bak10.xz''
       = Some \<lparr>regular = True, mtime = 90, fdata = Xz (Raw ''old'')\<rparr>
   \<and> map_of (files (snd (cleanupAndCompressOldBackups env25 ''/d/f'' 20 world25))) ''/d/f.bak20'' = None
   \<and> map_of (files (snd (cleanupAndCompressOldBackups env25 ''/d/f'' 20 world25))) ''/d/f.bak22''
       = Some \<lparr>regular = True, mtime = 78, fdata = Raw ''old''\<rparr>"
proof -
  let ?r = "cleanupAndCompressOldBackups env25 ''/d/f'' 20 world25"
  have srt: "sorts_newest_first (sort_newest env25)"
    using sample_sort_contract by (simp add: env25_def)
  have n: "length backups25 = 25" by (simp add: backups25_def)
  have stat: "\<forall>p\<in>set backups25. \<not> cannot_stat env25 p" by (simp add: env25_def)
  have res: "?r = (fst ?r, snd ?r)" by simp
  note t = rotation_of_25[OF wf25 srt lb25 n stat ps25[symmetric] res]
  have cnt: "fst ?r = Some 4"
    using t by (simp add: sorted25_def env25_def)
  have e0: "map_of (files (snd ?r)) (sorted25 ! 0) = map_of (files world25) (sorted25 ! 0)"
    using t by simp
  have e10: "\<exists>f. map_of (files world25) (sorted25 ! 10) = Some f \<and>
               (if last3 (sorted25 ! 10) = Some ''.xz'' then map_of (files (snd ?r)) (sorted25 ! 10) = Some f
                else if \<not> xz_fails env25 (sorted25 ! 10) \<and> map_of (files world25) (sorted25 ! 10 @ ''.xz'') = None
                then map_of (files (snd ?r)) (sorted25 ! 10) = None \<and>
                     map_of (files (snd ?r)) (sorted25 ! 10 @ ''.xz'') = Some (f\<lparr>fdata := Xz (fdata f)\<rparr>)
                else map_of (files (snd ?r)) (sorted25 ! 10) = Some f)"
    using t by simp
  have e20: "map_of (files (snd ?r)) (sorted25 ! 20)
              = (if cannot_remove env25 (sorted25 ! 20) then map_of (files world25) (sorted25 ! 20) else None)"
    using t by simp
  have e22: "map_of (files (snd ?r)) (sorted25 ! 22)
              = (if cannot_remove env25 (sorted25 ! 22) then map_of (files world25) (sorted25 ! 22) else None)"
    using t by simp
  have s0: "sorted25 ! 0 = ''/d/f.bak00''" and s10: "sorted25 ! 10 = ''/d/f.bak10''"
    and s20: "sorted25 ! 20 = ''/d/f.bak20''" and s22: "sorted25 ! 22 = ''/d/f.bak22''"
    by (simp_all add: sorted25_def)
  have r0: "map_of (files (snd ?r)) ''/d/f.bak00'' = Some \<lparr>regular = True, mtime = 100, fdata = Raw ''old''\<rparr>"
    using e0 unfolding s0 by (simp add: world25_def)
  have r10: "map_of (files (snd ?r)) ''/d/f.bak10'' = None \<and>
             map_of (files (snd ?r)) ''/d/f.bak10.xz'' = Some \<lparr>regular = True, mtime = 90, fdata = Xz (Raw ''old'')\<rparr>"
    using e10 unfolding s10 by (simp add: world25_def env25_def last3_def substr_from_def)
  have r20: "map_of (files (snd ?r)) ''/d/f.bak20'' = None"
    using e20 unfolding s20 by (simp add: env25_def)
  have r22: "map_of (files (snd ?r)) ''/d/f.bak22'' = Some \<lparr>regular = True, mtime = 78, fdata = Raw ''old''\<rparr>"
    using e22 unfolding s22 by (simp add: env25_def world25_def)
  from cnt r0 r10 r20 r22 show ?thesis by simp
qed

text \<open>
  C2 as stated fails where \<open>xz\<close> fails: in the sample world the compression of the
  entry at position 11 exits non-zero, and after the rotation that entry is still the
  uncompressed file it was.
\<close>

theorem rotation_compression_may_fail:
  "length (fst (listBackups env25 ''/d/f'' world25)) = 25
   \<and> map fst (sort_newest env25 (with_times env25 world25 (fst (listBackups env25 ''/d/f'' world25)))) ! 11
       = ''/d/f.bak11''
   \<and> last3 ''/d/f.bak11'' \<noteq> Some ''.xz''
   \<and> map_of (files world25) ''/d/f.bak11'' = Some \<lparr>regular = True, mtime = 89, fdata = Raw ''old''\<rparr>
   \<and> map_of (files (snd (cleanupAndCompressOldBackups env25 ''/d/f'' 20 world25))) ''/d/f.bak11''
       = Some \<lparr>regular = True, mtime = 89, fdata = Raw ''old''\<rparr>"
proof -
  let ?r = "cleanupAndCompressOldBackups env25 ''/d/f'' 20 world25"
  have srt: "sorts_newest_first (sort_newest env25)"
    using sample_sort_contract by (simp add: env25_def)
  have stat: "\<forall>p\<in>set backups25. \<not> cannot_stat env25 p" by (simp add: env25_def)
  have m: "(20::nat) = nat (if (20::int) \<le> 0 then 20 else 20)" by simp
  have res: "?r = (fst ?r, snd ?r)" by simp
  note g = rotation_general(5)[OF wf25 srt lb25 stat ps25[symmetric] m res]
  have s11: "sorted25 ! 11 = ''/d/f.bak11''" by (simp add: sorted25_def)
  have l3: "last3 ''/d/f.bak11'' \<noteq> Some ''.xz''" by (simp add: last3_def substr_from_def)
  have w11: "map_of (files world25) ''/d/f.bak11'' = Some \<lparr>regular = True, mtime = 89, fdata = Raw ''old''\<rparr>"
    by (simp add: world25_def)
  have "11 < length sorted25 \<and> (10::nat) \<le> 11 \<and> (11::nat) < 20" by (simp add: sorted25_def)
  from g[rule_format, OF this] l3 w11
  have "map_of (files (snd ?r)) ''/d/f.bak11'' = Some \<lparr>regular = True, mtime = 89, fdata = Raw ''old''\<rparr>"
    unfolding s11 by (simp add: env25_def)
  then show ?thesis using l3 w11 s11 by (simp add: lb25 ps25) (simp add: backups25_def)
qed

section \<open>Creating a backup\<close>

lemma isdigit_digit: "isdigit (digit n)"
  by (simp add: isdigit_def digit_def)

lemma decimal_digits: "list_all isdigit (decimal n)"
proof (induction n rule: decimal.induct)
  case (1 n)
  show ?case
  proof (cases "n < 10")
    case True
    then show ?thesis by (subst decimal.simps) (simp add: isdigit_digit)
  next
    case False
    with 1 show ?thesis by (subst decimal.simps) (simp add: isdigit_digit)
  qed
qed

lemma decimal_small: "n < 10 \<Longrightarrow> decimal n = [digit n]"
  by (subst decimal.simps) simp

lemma decimal_step: "10 \<le> n \<Longrightarrow> decimal n = decimal (n div 10) @ [digit n]"
  by (subst decimal.simps) simp

lemma length_decimal_2: "10 \<le> n \<Longrightarrow> n < 100 \<Longrightarrow> length (decimal n) = 2"
  by (simp add: decimal_step decimal_small)

lemma length_decimal_3: "100 \<le> n \<Longrightarrow> n < 1000 \<Longrightarrow> length (decimal n) = 3"
  by (simp add: decimal_step[of n] length_decimal_2)

lemma length_decimal_4: "1000 \<le> n \<Longrightarrow> n < 10000 \<Longrightarrow> length (decimal n) = 4"
  by (simp add: decimal_step[of n] length_decimal_3)

lemma isdigit_zero: "isdigit (CHR ''0'')"
  by (simp add: isdigit_def)

lemma pad2_shape: "n < 100 \<Longrightarrow> length (pad2 n) = 2 \<and> list_all isdigit (pad2 n)"
  by (auto simp: pad2_def length_decimal_2 decimal_digits isdigit_digit isdigit_zero)

lemma pad2_digits: "list_all isdigit (pad2 n)"
  by (auto simp: pad2_def decimal_digits isdigit_digit isdigit_zero)

lemma timestamp_shape:
  assumes "tm_in_range t"
  shows "length (generateTimestamp t) = 15 \<and> list_all isdigit (take 8 (generateTimestamp t)) \<and>
         generateTimestamp t ! 8 = CHR ''_'' \<and> list_all isdigit (drop 9 (generateTimestamp t))"
proof -
  from assms have y: "length (decimal (1900 + tm_year t)) = 4"
    by (intro length_decimal_4) (simp_all add: tm_in_range_def)
  from assms have l: "length (pad2 (tm_mon t + 1)) = 2" "length (pad2 (tm_mday t)) = 2"
    "length (pad2 (tm_hour t)) = 2" "length (pad2 (tm_min t)) = 2" "length (pad2 (tm_sec t)) = 2"
    using pad2_shape by (simp_all add: tm_in_range_def)
  show ?thesis unfolding generateTimestamp_def
    using y l by (simp add: decimal_digits pad2_digits nth_append)
qed

lemma timestamp_no_slash: "CHR ''/'' \<notin> set (generateTimestamp t)"
proof -
  have "list_all (\<lambda>c. isdigit c \<or> c = CHR ''_'') (generateTimestamp t)"
    unfolding generateTimestamp_def using decimal_digits pad2_digits
    by (auto simp: list_all_iff)
  moreover have "\<not> isdigit (CHR ''/'')" by (simp add: isdigit_def)
  ultimately show ?thesis by (auto simp: list_all_iff)
qed

lemma filename_no_slash: "CHR ''/'' \<notin> set (filename p)"
  unfolding filename_def using set_takeWhileD[of "CHR ''/''" "\<lambda>c. c \<noteq> CHR ''/''" "rev p"] by auto

lemma filename_plain:
  assumes "CHR ''/'' \<notin> set f"
  shows "filename f = f"
proof -
  have tw: "takeWhile (\<lambda>c. c \<noteq> CHR ''/'') (rev f) = rev f"
    using assms by (auto simp: takeWhile_eq_all_conv)
  show ?thesis unfolding filename_def tw by simp
qed

lemma filename_path_join:
  assumes "CHR ''/'' \<notin> set f"
  shows "filename (path_join d f) = f"
proof -
  have nh: "\<not> (f \<noteq> [] \<and> hd f = CHR ''/'')" using assms by (cases f) auto
  have tw: "takeWhile (\<lambda>c. c \<noteq> CHR ''/'') (rev f @ CHR ''/'' # r) = rev f" for r
    by (rule takeWhile_stop) (use assms in auto)
  show ?thesis
  proof (cases "d = []")
    case True
    with nh have "path_join d f = f" by (auto simp: path_join_def)
    then show ?thesis by (simp add: filename_plain[OF assms])
  next
    case False
    show ?thesis
    proof (cases "last d = CHR ''/''")
      case True
      with False obtain d' where d': "d = d' @ [CHR ''/'']"
        by (metis append_butlast_last_id)
      have "path_join d f = d' @ CHR ''/'' # f" using nh False True by (auto simp: path_join_def d')
      then show ?thesis using tw by (simp add: filename_def)
    next
      case nl: False
      have "path_join d f = d @ CHR ''/'' # f" using nh False nl by (auto simp: path_join_def)
      then show ?thesis using tw by (simp add: filename_def)
    qed
  qed
qed

lemma cleanup_no_throw:
  assumes srt: "sorts_newest_first (sort_newest e)"
  shows "\<exists>n. fst (cleanupAndCompressOldBackups e orig mb st) = Some n"
proof -
  obtain backups st1 where lb: "listBackups e orig st = (backups, st1)"
    by (cases "listBackups e orig st")
  let ?xs = "sort_newest e (with_times e st1 backups)"
  have "\<forall>x\<in>set ?xs. 3 \<le> length (fst x)"
  proof
    fix x assume "x \<in> set ?xs"
    then have "x \<in> set (with_times e st1 backups)"
      using sorts_newest_first_facts(1)[OF srt] by blast
    then have "fst x \<in> set backups" using with_times_set by blast
    with listBackups_facts(1)[OF lb] show "3 \<le> length (fst x)" by fastforce
  qed
  from cleanup_loop_count[OF this]
  show ?thesis unfolding cleanupAndCompressOldBackups_def lb by (simp add: Let_def)
qed

lemma fs_copy_file_distinct:
  assumes "fs_copy_file e st src dst = Some st2" and "distinct (map fst (files st))"
  shows "distinct (map fst (files st2))"
  using assms by (auto simp: fs_copy_file_def distinct_update split: option.splits if_splits)

lemma fs_copy_file_result:
  assumes "fs_copy_file e st src dst = Some st2"
  shows "\<exists>f. map_of (files st) src = Some f \<and>
             map_of (files st2) dst = Some \<lparr>regular = True, mtime = clock e, fdata = fdata f\<rparr>"
  using assms by (auto simp: fs_copy_file_def update_conv split: option.splits if_splits)

lemma getBackupDirectory_dir:
  "fst (getBackupDirectory e orig st) =
     (case home e of
        None \<Rightarrow> parent_path orig
      | Some h \<Rightarrow>
          if \<not> cannot_status e (path_join h ''.shellbackup'')
             \<and> (fs_exists st (path_join h ''.shellbackup'')
                  \<or> (\<not> cannot_mkdir e (path_join h ''.shellbackup'')
                      \<and> \<not> cannot_chmod e (path_join h ''.shellbackup'')))
          then path_join h ''.shellbackup'' else parent_path orig)"
  by (auto simp: getBackupDirectory_def exists_or_throw_def Let_def
      split: option.splits bool.splits)

subsection \<open>The timestamp carries the clock\<close>

lemma of_char_digit: "of_char (digit n) = 48 + n mod 10"
  by (simp add: digit_def)

lemma decimal_value_snoc: "decimal_value (s @ [c]) = 10 * decimal_value s + (of_char c - 48)"
  by (simp add: decimal_value_def)

lemma decimal_value_decimal: "decimal_value (decimal n) = n"
proof (induction n rule: decimal.induct)
  case (1 n)
  show ?case
  proof (cases "n < 10")
    case True
    then show ?thesis by (simp add: decimal_small decimal_value_def of_char_digit)
  next
    case False
    with 1 have "decimal_value (decimal (n div 10)) = n div 10" by simp
    with False show ?thesis
      by (simp add: decimal_step decimal_value_snoc of_char_digit)
  qed
qed

lemma decimal_value_pad2: "decimal_value (pad2 n) = n"
proof (cases "n < 10")
  case True
  then show ?thesis by (simp add: pad2_def decimal_value_def of_char_digit)
next
  case False
  then show ?thesis by (simp add: pad2_def decimal_value_decimal)
qed

lemma timestamp_fields:
  assumes "tm_in_range t"
  shows "decimal_value (take 4 (generateTimestamp t)) = 1900 + tm_year t
       \<and> decimal_value (take 2 (drop 4 (generateTimestamp t))) = tm_mon t + 1
       \<and> decimal_value (take 2 (drop 6 (generateTimestamp t))) = tm_mday t
       \<and> decimal_value (take 2 (drop 9 (generateTimestamp t))) = tm_hour t
       \<and> decimal_value (take 2 (drop 11 (generateTimestamp t))) = tm_min t
       \<and> decimal_value (drop 13 (generateTimestamp t)) = tm_sec t"
proof -
  from assms have y: "length (decimal (1900 + tm_year t)) = 4"
    by (intro length_decimal_4) (simp_all add: tm_in_range_def)
  from assms have l: "length (pad2 (tm_mon t + 1)) = 2" "length (pad2 (tm_mday t)) = 2"
    "length (pad2 (tm_hour t)) = 2" "length (pad2 (tm_min t)) = 2" "length (pad2 (tm_sec t)) = 2"
    using pad2_shape by (simp_all add: tm_in_range_def)
  show ?thesis unfolding generateTimestamp_def
    using y l by (simp add: decimal_value_decimal decimal_value_pad2)
qed

subsection \<open>The outcomes of createBackup\<close>

text \<open>
  What \<open>createBackup\<close> does in each case. When \<open>fs::exists\<close> throws on the tracked
  file, the exception leaves the function. When the file is reported missing, or the
  copy throws, the result is the empty string and \<open>lastError\<close> holds the reason. When
  the copy succeeds the result is the path of the file just written, in the directory
  \<open>getBackupDirectory\<close> resolved, whose name is the basename of the tracked file,
  \<open>.bak\<close> and the timestamp, and the state left is the one the rotation with a cap of
  20 leaves. For a clock whose year has four digits the timestamp has the shape
  \<open>YYYYMMDD_HHMMSS\<close> and its digits are the fields of the clock.
\<close>

lemma createBackup_outcomes:
  assumes srt: "sorts_newest_first (sort_newest e)"
    and gd: "getBackupDirectory e orig st = (dir, st1)"
    and ts: "ts = generateTimestamp (now e)"
    and bp: "bp = path_join dir (filename orig @ ''.bak'' @ ts)"
  shows "(cannot_status e orig \<longrightarrow> createBackup e orig st = (None, st))
       \<and> (\<not> cannot_status e orig \<and> \<not> fs_exists st orig \<longrightarrow>
            createBackup e orig st
              = (Some [], st\<lparr>lastError := ''Original file does not exist: '' @ orig\<rparr>))
       \<and> (\<not> cannot_status e orig \<and> fs_exists st orig \<and> fs_copy_file e st1 orig bp = None \<longrightarrow>
            createBackup e orig st
              = (Some [], st1\<lparr>lastError := ''Failed to create backup: '' @ what e\<rparr>))
       \<and> (\<forall>st2. \<not> cannot_status e orig \<and> fs_exists st orig \<and>
                 fs_copy_file e st1 orig bp = Some st2 \<longrightarrow>
            createBackup e orig st = (Some bp, snd (cleanupAndCompressOldBackups e orig 20 st2))
            \<and> bp \<noteq> [] \<and> filename bp = filename orig @ ''.bak'' @ ts
            \<and> (\<exists>f. map_of (files st1) orig = Some f \<and>
                    map_of (files st2) bp
                      = Some \<lparr>regular = True, mtime = clock e, fdata = fdata f\<rparr>))
       \<and> dir = (case home e of
                  None \<Rightarrow> parent_path orig
                | Some h \<Rightarrow>
                    if \<not> cannot_status e (path_join h ''.shellbackup'')
                       \<and> (fs_exists st (path_join h ''.shellbackup'')
                            \<or> (\<not> cannot_mkdir e (path_join h ''.shellbackup'')
                                \<and> \<not> cannot_chmod e (path_join h ''.shellbackup'')))
                    then path_join h ''.shellbackup'' else parent_path orig)
       \<and> (tm_in_range (now e) \<longrightarrow>
            length ts = 15 \<and> list_all isdigit (take 8 ts) \<and> ts ! 8 = CHR ''_'' \<and>
            list_all isdigit (drop 9 ts) \<and>
            decimal_value (take 4 ts) = 1900 + tm_year (now e) \<and>
            decimal_value (take 2 (drop 4 ts)) = tm_mon (now e) + 1 \<and>
            decimal_value (take 2 (drop 6 ts)) = tm_mday (now e) \<and>
            decimal_value (take 2 (drop 9 ts)) = tm_hour (now e) \<and>
            decimal_value (take 2 (drop 11 ts)) = tm_min (now e) \<and>
            decimal_value (drop 13 ts) = tm_sec (now e))"
proof (intro conjI allI impI)
  show "createBackup e orig st = (None, st)" if "cannot_status e orig"
    using that by (simp add: createBackup_def exists_or_throw_def)
  show "createBackup e orig st
          = (Some [], st\<lparr>lastError := ''Original file does not exist: '' @ orig\<rparr>)"
    if "\<not> cannot_status e orig \<and> \<not> fs_exists st orig"
    using that by (simp add: createBackup_def exists_or_throw_def)
  show "createBackup e orig st
          = (Some [], st1\<lparr>lastError := ''Failed to create backup: '' @ what e\<rparr>)"
    if "\<not> cannot_status e orig \<and> fs_exists st orig \<and> fs_copy_file e st1 orig bp = None"
    using that gd by (simp add: createBackup_def exists_or_throw_def Let_def bp ts)
  have ns: "CHR ''/'' \<notin> set (filename orig @ ''.bak'' @ ts)"
    using filename_no_slash[of orig] timestamp_no_slash[of "now e"] by (simp add: ts)
  have fn: "filename bp = filename orig @ ''.bak'' @ ts"
    unfolding bp by (rule filename_path_join[OF ns])
  show "filename bp = filename orig @ ''.bak'' @ ts" by (rule fn)
  then have "filename bp \<noteq> []" by simp
  then show "bp \<noteq> []" using length_filename[of bp] by auto
  show "dir = (case home e of
                  None \<Rightarrow> parent_path orig
                | Some h \<Rightarrow>
                    if \<not> cannot_status e (path_join h ''.shellbackup'')
                       \<and> (fs_exists st (path_join h ''.shellbackup'')
                            \<or> (\<not> cannot_mkdir e (path_join h ''.shellbackup'')
                                \<and> \<not> cannot_chmod e (path_join h ''.shellbackup'')))
                    then path_join h ''.shellbackup'' else parent_path orig)"
    using getBackupDirectory_dir[of e orig st] gd by simp
  show "length ts = 15" "list_all isdigit (take 8 ts)" "ts ! 8 = CHR ''_''"
    "list_all isdigit (drop 9 ts)" if "tm_in_range (now e)"
    using timestamp_shape[OF that] by (simp_all add: ts)
  show "decimal_value (take 4 ts) = 1900 + tm_year (now e)"
    "decimal_value (take 2 (drop 4 ts)) = tm_mon (now e) + 1"
    "decimal_value (take 2 (drop 6 ts)) = tm_mday (now e)"
    "decimal_value (take 2 (drop 9 ts)) = tm_hour (now e)"
    "decimal_value (take 2 (drop 11 ts)) = tm_min (now e)"
    "decimal_value (drop 13 ts) = tm_sec (now e)" if "tm_in_range (now e)"
    using timestamp_fields[OF that] by (simp_all add: ts)
  fix st2 assume a: "\<not> cannot_status e orig \<and> fs_exists st orig \<and>
                     fs_copy_file e st1 orig bp = Some st2"
  from cleanup_no_throw[OF srt, of orig 20 st2] obtain n
    where n: "fst (cleanupAndCompressOldBackups e orig 20 st2) = Some n" by blast
  show "createBackup e orig st = (Some bp, snd (cleanupAndCompressOldBackups e orig 20 st2))"
    using a gd n
    by (cases "cleanupAndCompressOldBackups e orig 20 st2")
       (simp add: createBackup_def exists_or_throw_def Let_def bp ts)
  show "\<exists>f. map_of (files st1) orig = Some f \<and>
            map_of (files st2) bp = Some \<lparr>regular = True, mtime = clock e, fdata = fdata f\<rparr>"
    using a fs_copy_file_result[of e st1 orig bp st2] by simp
qed

text \<open>
  The rotation runs after the copy, on a directory that holds the new backup. When the
  file just written is newer than every other backup whose time can be read, it is
  still there, with the content of the tracked file, when \<open>createBackup\<close> returns.
\<close>

lemma createBackup_new_file_stays:
  assumes wf: "distinct (map fst (files st))"
    and srt: "sorts_newest_first (sort_newest e)"
    and gd: "getBackupDirectory e orig st = (dir, st1)"
    and bp: "bp = path_join dir (filename orig @ ''.bak'' @ generateTimestamp (now e))"
    and ok: "\<not> cannot_status e orig \<and> fs_exists st orig"
    and cp: "fs_copy_file e st1 orig bp = Some st2"
    and lb: "listBackups e orig st2 = (backups, st3)"
    and newer: "\<forall>p\<in>set backups. p \<noteq> bp \<longrightarrow>
                  (\<forall>t. last_write_time e st3 p = Some t \<longrightarrow> t < clock e)"
  shows "\<exists>f. map_of (files st1) orig = Some f \<and>
             fst (createBackup e orig st) = Some bp \<and>
             map_of (files (snd (createBackup e orig st))) bp
               = Some \<lparr>regular = True, mtime = clock e, fdata = fdata f\<rparr>"
proof -
  from fs_copy_file_result[OF cp] obtain f
    where f: "map_of (files st1) orig = Some f"
      and n: "map_of (files st2) bp = Some \<lparr>regular = True, mtime = clock e, fdata = fdata f\<rparr>"
    by blast
  have wf2: "distinct (map fst (files st2))"
    by (rule fs_copy_file_distinct[OF cp getBackupDirectory_distinct[OF gd wf]])
  have n3: "map_of (files st3) bp = Some \<lparr>regular = True, mtime = clock e, fdata = fdata f\<rparr>"
    by (rule listBackups_keeps[OF lb n])
  have kept: "map_of (files (snd (cleanupAndCompressOldBackups e orig 20 st2))) bp
                = Some \<lparr>regular = True, mtime = clock e, fdata = fdata f\<rparr>"
    by (rule rotation_keeps_newest[OF wf2 srt lb n3]) (use newer in simp)
  have "createBackup e orig st = (Some bp, snd (cleanupAndCompressOldBackups e orig 20 st2))"
    using createBackup_outcomes[OF srt gd refl bp] ok cp by blast
  with f kept show ?thesis by simp
qed

subsection \<open>Where createBackup leaves its contract\<close>

text \<open>
  C7. \<open>createBackup\<close> is to return the empty string, with the reason in \<open>lastError\<close>,
  whenever the tracked file does not exist or the copy fails, and on success the path of
  a newly created backup named basename, \<open>.bak\<close> and a \<open>YYYYMMDD_HHMMSS\<close> timestamp in the
  resolved backup directory, after running the rotation with a cap of 20. The code
  does so in the cases of \<open>createBackup_outcomes\<close>, and leaves the contract in two:

  \<^item> \<open>fs::exists(originalFilePath)\<close> stands before the \<open>try\<close> block. In the empty
    directory \<open>world0\<close> the tracked file \<open>/d/f\<close> does not exist and its status cannot be
    read: the \<open>filesystem_error\<close> leaves \<open>createBackup\<close>, no string is returned and
    \<open>lastError\<close> is not written.

  \<^item> The rotation treats the backup just written like any other. In \<open>world10\<close> ten
    backups carry modification times after the clock, so the new backup, written at
    20240115_143025 by a clock of 2024-01-15 14:30:25, is at position 10 of the sorted
    list: \<open>xz\<close> renames it, and \<open>createBackup\<close> returns a path
    \<open>/d/f.bak20240115_143025\<close> at which no file exists any more. The content of the
    tracked file is at \<open>/d/f.bak20240115_143025.xz\<close>, compressed.
\<close>

theorem createBackup_leaves_contract:
  "\<not> fs_exists world0 ''/d/f''
   \<and> createBackup env_unreadable ''/d/f'' world0 = (None, world0)
   \<and> lastError (snd (createBackup env_unreadable ''/d/f'' world0)) = []
   \<and> fs_exists world10 ''/d/f''
   \<and> fst (createBackup env25 ''/d/f'' world10) = Some ''/d/f.bak20240115_143025''
   \<and> lastError (snd (createBackup env25 ''/d/f'' world10)) = []
   \<and> \<not> fs_exists (snd (createBackup env25 ''/d/f'' world10)) ''/d/f.bak20240115_143025''
   \<and> map_of (files (snd (createBackup env25 ''/d/f'' world10))) ''/d/f.bak20240115_143025.xz''
       = Some \<lparr>regular = True, mtime = 1000, fdata = Xz (Raw ''new'')\<rparr>"
  by code_simp

section \<open>Restoring the last backup\<close>

lemma restore_copy_error:
  "fst (restore_copy e orig p st) = Some False \<Longrightarrow>
   lastError (snd (restore_copy e orig p st)) \<noteq> ''No backup found''"
  by (auto simp: restore_copy_def split: if_splits option.splits bool.splits)

lemma restoreFromBackup_error:
  "fst (restoreFromBackup e orig bp st) = Some False \<Longrightarrow>
   lastError (snd (restoreFromBackup e orig bp st)) \<noteq> ''No backup found''"
  using restore_copy_error
  by (auto simp: restoreFromBackup_def Let_def split: option.splits if_splits prod.splits)

text \<open>
  C8 (as amended). \<open>restoreFromLastBackup\<close> returns false with the error
  \<open>No backup found\<close> exactly when no backup has a modification time that can be read
  (in particular when there is no backup). Otherwise it picks a backup whose
  modification time is the greatest among those that can be read and returns what
  \<open>restoreFromBackup\<close> returns for it.
\<close>

theorem restoreFromLastBackup_spec:
  assumes srt: "sorts_newest_first (sort_newest e)"
    and lb: "listBackups e orig st = (backups, st1)"
    and bt: "bt = with_times e st1 backups"
  shows "(bt = [] \<longrightarrow>
            restoreFromLastBackup e orig st = (Some False, st1\<lparr>lastError := ''No backup found''\<rparr>))
       \<and> (bt \<noteq> [] \<longrightarrow>
            (\<exists>p t. (p, t) \<in> set bt \<and> p \<in> set backups \<and> last_write_time e st1 p = Some t \<and>
                   (\<forall>x\<in>set bt. snd x \<le> t) \<and>
                   restoreFromLastBackup e orig st = restoreFromBackup e orig p st1))
       \<and> ((fst (restoreFromLastBackup e orig st) = Some False \<and>
            lastError (snd (restoreFromLastBackup e orig st)) = ''No backup found'')
           \<longleftrightarrow> bt = [])"
proof -
  have empty: "restoreFromLastBackup e orig st = (Some False, st1\<lparr>lastError := ''No backup found''\<rparr>)"
    if "bt = []"
    using that lb bt by (simp add: restoreFromLastBackup_def getLastBackupPath_def Let_def)
  have nonempty: "\<exists>p t. (p, t) \<in> set bt \<and> p \<in> set backups \<and> last_write_time e st1 p = Some t \<and>
                   (\<forall>x\<in>set bt. snd x \<le> t) \<and>
                   restoreFromLastBackup e orig st = restoreFromBackup e orig p st1"
    if ne: "bt \<noteq> []"
  proof -
    note sf = sorts_newest_first_facts[OF srt, of bt]
    from ne sf(2) obtain x rest where xs: "sort_newest e bt = x # rest"
      by (cases "sort_newest e bt") auto
    obtain p t where x: "x = (p, t)" by (cases x)
    have xin: "(p, t) \<in> set bt" using sf(1) xs x by (metis list.set_intros(1))
    from with_times_set[OF xin[unfolded bt]]
    have pb: "p \<in> set backups" and lw: "last_write_time e st1 p = Some t" by simp_all
    have max: "\<forall>y\<in>set bt. snd y \<le> t"
    proof
      fix y assume "y \<in> set bt"
      then have "y \<in> set (x # rest)" using sf(1) xs by simp
      with sf(4)[unfolded xs] x show "snd y \<le> t" by auto
    qed
    from listBackups_facts(1)[OF lb] pb have "p \<noteq> []" by fastforce
    moreover have "backups \<noteq> []" using pb by auto
    ultimately have "restoreFromLastBackup e orig st = restoreFromBackup e orig p st1"
      using lb bt ne xs x
      by (simp add: restoreFromLastBackup_def getLastBackupPath_def Let_def)
    with xin pb lw max show ?thesis by blast
  qed
  have iff: "(fst (restoreFromLastBackup e orig st) = Some False \<and>
            lastError (snd (restoreFromLastBackup e orig st)) = ''No backup found'') \<longleftrightarrow> bt = []"
  proof (cases "bt = []")
    case True
    with empty show ?thesis by simp
  next
    case False
    from nonempty[OF False] obtain p
      where "restoreFromLastBackup e orig st = restoreFromBackup e orig p st1" by blast
    with restoreFromBackup_error[of e orig p st1] False show ?thesis by auto
  qed
  from empty nonempty iff show ?thesis by blast
qed

text \<open>
  C8 as stated fails when a backup exists and its modification time cannot be read:
  \<open>restoreFromLastBackup\<close> reports that no backup was found.
\<close>

theorem restoreFromLastBackup_unreadable_times:
  "fst (listBackups env_nostat ''/d/f'' world1) = [''/d/f.bak1'']
   \<and> fst (restoreFromLastBackup env_nostat ''/d/f'' world1) = Some False
   \<and> lastError (snd (restoreFromLastBackup env_nostat ''/d/f'' world1)) = ''No backup found''"
  by (simp add: restoreFromLastBackup_def getLastBackupPath_def 
      listBackups_def getBackupDirectory_def getBackupBaseName_def env25_def env_nostat_def
      parent_path_def filename_def directory_iterator_def is_child_def path_join_def
      world1_def last_write_time_def)

text \<open>The theorem in the sample directory, where every time can be read.\<close>

theorem restoreFromLastBackup_spec_witness:
  "with_times env25 world25 backups25 \<noteq> []
   \<and> \<not> (fst (restoreFromLastBackup env25 ''/d/f'' world25) = Some False \<and>
        lastError (snd (restoreFromLastBackup env25 ''/d/f'' world25)) = ''No backup found'')"
proof -
  have srt: "sorts_newest_first (sort_newest env25)"
    using sample_sort_contract by (simp add: env25_def)
  have ne: "with_times env25 world25 backups25 \<noteq> []"
    by (simp add: backups25_def last_write_time_def env25_def world25_def)
  from restoreFromLastBackup_spec[OF srt lb25 refl] ne show ?thesis by blast
qed

end
